theory Spec2Isabelle
  imports Complex_Main "HOL-Library.Sublist"
begin

section \<open>WordPiece: trainer and tokenizer of \<open>WordPiece.py\<close>\<close>

text \<open>
  The module has two classes. \<open>WordPieceTrainer\<close> builds a token list from a corpus by
  repeatedly merging adjacent tokens; \<open>WordPieceTokenizer\<close> segments text into the longest
  tokens of a stored list and maps indices back to text.

  Python strings are modelled as \<^typ>\<open>string\<close> (characters restricted to the code points
  below 256), Python integers as \<^typ>\<open>int\<close>, lists as lists, \<open>Counter\<close> objects and
  \<open>FreqDist\<close> objects as association lists in insertion order, the dictionary
  \<open>token2idx\<close> as a map. An exception is a value \<open>Inl e\<close> of a sum type; a loop that may
  run forever returns an option, \<open>None\<close> standing for "does not return". Writing the
  JSON files of \<open>./tokenizer_data/\<close> and the progress display are left out.
\<close>

datatype error = NameError | AttributeError | ZeroDivisionError | KeyError | IndexError

type_synonym token = string
type_synonym bigram = "token \<times> token"

subsection \<open>String primitives of Python\<close>

text \<open>\<open>str.isspace\<close> on one character, for the code points below 256.\<close>

definition is_space :: "char \<Rightarrow> bool" where
  "is_space c = (c \<in> set [CHR 0x09, CHR 0x0A, CHR 0x0B, CHR 0x0C, CHR 0x0D,
                          CHR 0x1C, CHR 0x1D, CHR 0x1E, CHR 0x1F, CHR 0x20,
                          CHR 0x85, CHR 0xA0])"

text \<open>\<open>s.split()\<close>: the maximal runs of non-whitespace characters, in order. The first
  argument of the loop is the run collected so far.\<close>

fun split_loop :: "string \<Rightarrow> string \<Rightarrow> string list" where
  "split_loop cur [] = (if cur = [] then [] else [cur])"
| "split_loop cur (c # s) =
     (if is_space c then (if cur = [] then split_loop [] s else cur # split_loop [] s)
      else split_loop (cur @ [c]) s)"

definition split :: "string \<Rightarrow> string list" where
  "split s = split_loop [] s"

text \<open>\<open>' '.join(ws)\<close>.\<close>

fun join :: "string list \<Rightarrow> string" where
  "join [] = []"
| "join [w] = w"
| "join (w # v # ws) = w @ '' '' @ join (v # ws)"

text \<open>\<open>s.replace(old, new)\<close>: the occurrences of \<open>old\<close> are found from the left and do
  not overlap. With an empty \<open>old\<close> Python puts \<open>new\<close> before every character and at the
  end.\<close>

function replace :: "string \<Rightarrow> string \<Rightarrow> string \<Rightarrow> string" where
  "replace old new s =
     (if old = [] then new @ concat (map (\<lambda>c. c # new) s)
      else (case s of
              [] \<Rightarrow> []
            | c # cs \<Rightarrow>
                if take (length old) s = old
                then new @ replace old new (drop (length old) s)
                else c # replace old new cs))"
  by pat_completeness auto
termination
  by (relation "measure (\<lambda>(old, new, s). length s)") auto

declare replace.simps [simp del]

text \<open>The slice \<open>word[start:e]\<close> for \<open>0 \<le> start\<close> and \<open>0 \<le> e\<close>.\<close>

definition slice :: "'a list \<Rightarrow> nat \<Rightarrow> nat \<Rightarrow> 'a list" where
  "slice xs start e = take (e - start) (drop start xs)"

subsection \<open>Counters\<close>

text \<open>A \<open>Counter\<close> keeps its keys in the order of their first insertion. \<open>counter_add\<close> is
  \<open>c[k] += v\<close>, \<open>counter_update\<close> is \<open>c.update(d)\<close> for a dictionary \<open>d\<close>, \<open>Counter seq\<close>
  counts the elements of a sequence, \<open>counter_get\<close> is \<open>c[k]\<close>, which is 0 for a missing
  key.\<close>

fun counter_add :: "'a \<Rightarrow> nat \<Rightarrow> ('a \<times> nat) list \<Rightarrow> ('a \<times> nat) list" where
  "counter_add k v [] = [(k, v)]"
| "counter_add k v ((k', v') # kvs) =
     (if k = k' then (k', v' + v) # kvs else (k', v') # counter_add k v kvs)"

definition counter_update :: "('a \<times> nat) list \<Rightarrow> ('a \<times> nat) list \<Rightarrow> ('a \<times> nat) list" where
  "counter_update c d = fold (\<lambda>kv. counter_add (fst kv) (snd kv)) d c"

definition Counter :: "'a list \<Rightarrow> ('a \<times> nat) list" where
  "Counter seq = fold (\<lambda>k. counter_add k 1) seq []"

definition counter_get :: "('a \<times> nat) list \<Rightarrow> 'a \<Rightarrow> nat" where
  "counter_get c k = (case map_of c k of None \<Rightarrow> 0 | Some v \<Rightarrow> v)"

text \<open>\<open>nltk.bigrams(seq)\<close>: the pairs of neighbours.\<close>

definition bigrams :: "'a list \<Rightarrow> ('a \<times> 'a) list" where
  "bigrams seq = zip seq (tl seq)"

subsection \<open>The trainer\<close>

text \<open>An element of \<open>word_counts\<close> is the dictionary \<open>{'word': ..., 'count': ...}\<close>.\<close>

record word_count =
  word :: "token list"
  count :: nat

text \<open>The part of the trainer object and of the local state of \<open>fit\<close> that the training
  loop changes.\<close>

record trainer =
  tokens :: "token list"
  history :: "bigram list"
  word_counts :: "word_count list"

text \<open>\<open>nltk.FreqDist.most_common(max_symbols)\<close> calls the method \<open>Counter.most_common\<close> on the
  class, so that \<open>max_symbols\<close> is bound to \<open>self\<close> and \<open>n\<close> keeps its default \<open>None\<close>; the
  method then evaluates \<open>self.items()\<close> on an integer, which raises \<open>AttributeError\<close>.\<close>

definition most_common_on_class :: "int \<Rightarrow> error + (char \<times> nat) list" where
  "most_common_on_class max_symbols = Inl AttributeError"

text \<open>\<open>_get_symbols\<close>. Python does not fix the order in which \<open>set(text)\<close> is enumerated:
  \<open>elems\<close> is that enumeration.\<close>

definition add_marker :: "token list \<Rightarrow> token list" where
  "add_marker valid_symbols =
     (if ''_'' \<notin> set valid_symbols then valid_symbols @ [''_''] else valid_symbols)"

definition get_symbols ::
  "char list \<Rightarrow> string \<Rightarrow> int option \<Rightarrow> error + (token list \<times> token list)" where
  "get_symbols elems text max_symbols =
     (case max_symbols of
        None \<Rightarrow> Inr (add_marker (map (\<lambda>c. [c]) elems), [])
      | Some n \<Rightarrow>
          (case most_common_on_class n of
             Inl e \<Rightarrow> Inl e
           | Inr common \<Rightarrow>
               let valid_symbols = map (\<lambda>item. [fst item]) common;
                   invalid_symbols = filter (\<lambda>s. s \<notin> set valid_symbols) (map (\<lambda>c. [c]) elems)
               in Inr (add_marker valid_symbols, invalid_symbols)))"

text \<open>\<open>_split_word\<close>.\<close>

definition split_word :: "string \<Rightarrow> token list" where
  "split_word w =
     ''_'' # split (replace ''< u n k >'' ''<unk>'' (join (map (\<lambda>c. [c]) w)))"

text \<open>\<open>_count_multiply\<close> and \<open>_count_ngrams\<close>.\<close>

definition count_multiply :: "'a list \<Rightarrow> nat \<Rightarrow> ('a \<times> nat) list" where
  "count_multiply seq n = map (\<lambda>kv. (fst kv, snd kv * n)) (Counter seq)"

definition count_ngrams :: "word_count list \<Rightarrow> (token \<times> nat) list \<times> (bigram \<times> nat) list" where
  "count_ngrams wcs =
     fold (\<lambda>element (unigram_counts, bigram_counts).
             (counter_update unigram_counts (count_multiply (word element) (count element)),
              counter_update bigram_counts
                (count_multiply (bigrams (word element)) (count element))))
          wcs ([], [])"

text \<open>The scores of one round, in the order of \<open>bigram_counts\<close>. Python computes
  \<open>count / (unigram_counts[l] * unigram_counts[r])\<close> as a floating-point number and raises
  \<open>ZeroDivisionError\<close> when the product is 0. The division is the parameter \<open>true_div\<close>, with
  values in any linear order: the floats, or the exact rationals.\<close>

fun bigram_scores ::
  "(nat \<Rightarrow> nat \<Rightarrow> 'k) \<Rightarrow> (token \<times> nat) list \<Rightarrow> (bigram \<times> nat) list \<Rightarrow> error + (bigram \<times> 'k) list"
where
  "bigram_scores true_div unigram_counts [] = Inr []"
| "bigram_scores true_div unigram_counts (item # items) =
     (let d = counter_get unigram_counts (fst (fst item))
              * counter_get unigram_counts (snd (fst item))
      in if d = 0 then Inl ZeroDivisionError
         else (case bigram_scores true_div unigram_counts items of
                 Inl e \<Rightarrow> Inl e
               | Inr bigram_mi \<Rightarrow> Inr ((fst item, true_div (snd item) d) # bigram_mi)))"

text \<open>\<open>bigram_mi.sort(key=..., reverse=True)\<close>: descending, and stable (elements with
  equal scores keep their order).\<close>

definition sort_reverse :: "(bigram \<times> 'k::linorder) list \<Rightarrow> (bigram \<times> 'k) list" where
  "sort_reverse bigram_mi = rev (sort_key snd (rev bigram_mi))"

text \<open>\<open>_get_independed_bigrams\<close>: the loop with its three accumulators; the \<open>else\<close> branch
  is the \<open>break\<close>.\<close>

fun independed_loop ::
  "(bigram \<times> 'k) list \<Rightarrow> bigram list \<Rightarrow> token list \<Rightarrow> token list \<Rightarrow> bigram list \<times> token list"
where
  "independed_loop [] bigrams_to_merge unique_unigrams new_tokens =
     (bigrams_to_merge, new_tokens)"
| "independed_loop (element # rest) bigrams_to_merge unique_unigrams new_tokens =
     (let bigram = fst element
      in if fst bigram \<notin> set unique_unigrams \<and> snd bigram \<notin> set unique_unigrams
         then independed_loop rest (bigrams_to_merge @ [bigram])
                (unique_unigrams @ [fst bigram, snd bigram])
                (new_tokens @ [fst bigram @ snd bigram])
         else (bigrams_to_merge, new_tokens))"

definition get_independed_bigrams :: "(bigram \<times> 'k) list \<Rightarrow> bigram list \<times> token list" where
  "get_independed_bigrams bigram_mi = independed_loop bigram_mi [] [] []"

text \<open>The tokens of a list of bigrams: the elements of \<open>unique_unigrams\<close> once these
  bigrams have been accepted.\<close>

definition unigrams_of :: "bigram list \<Rightarrow> token set" where
  "unigrams_of bs = set (concat (map (\<lambda>b. [fst b, snd b]) bs))"

text \<open>\<open>_merge_bigrams_in_word\<close>.\<close>

definition merge_bigrams_in_word :: "token list \<Rightarrow> bigram list \<Rightarrow> token list" where
  "merge_bigrams_in_word w bigrams_to_merge =
     split (fold (\<lambda>bigram s. replace (fst bigram @ '' '' @ snd bigram)
                                      (fst bigram @ snd bigram) s)
                 bigrams_to_merge (join w))"

text \<open>One pass through the body of the \<open>while\<close> loop of \<open>fit\<close>.\<close>

definition train_round :: "(nat \<Rightarrow> nat \<Rightarrow> 'k::linorder) \<Rightarrow> trainer \<Rightarrow> error + trainer" where
  "train_round true_div st =
     (case count_ngrams (word_counts st) of
        (unigram_counts, bigram_counts) \<Rightarrow>
          (case bigram_scores true_div unigram_counts bigram_counts of
             Inl e \<Rightarrow> Inl e
           | Inr bigram_mi \<Rightarrow>
               (case get_independed_bigrams (sort_reverse bigram_mi) of
                  (bigrams_to_merge, new_tokens) \<Rightarrow>
                    Inr \<lparr>tokens = tokens st @ new_tokens,
                         history = history st @ bigrams_to_merge,
                         word_counts =
                           map (\<lambda>element.
                                  element\<lparr>word := merge_bigrams_in_word (word element)
                                                     bigrams_to_merge\<rparr>)
                               (word_counts st)\<rparr>)))"

text \<open>The \<open>while\<close> loop of \<open>fit\<close>; \<open>num_tokens\<close> is always the length of \<open>tokens\<close>.\<close>

partial_function (option) train_loop ::
  "(nat \<Rightarrow> nat \<Rightarrow> 'k::linorder) \<Rightarrow> int \<Rightarrow> trainer \<Rightarrow> (error + trainer) option"
where
  "train_loop true_div vocab_size st =
     (if int (length (tokens st)) < vocab_size
      then (case train_round true_div st of
              Inl e \<Rightarrow> Some (Inl e)
            | Inr st' \<Rightarrow> train_loop true_div vocab_size st')
      else Some (Inr st))"

declare train_loop.simps [code]

text \<open>The five conditional insertions at the front that end \<open>fit\<close>.\<close>

definition prepend_if_absent :: "token \<Rightarrow> token list \<Rightarrow> token list" where
  "prepend_if_absent t ts = (if t \<notin> set ts then t # ts else ts)"

definition finalize :: "token list \<Rightarrow> token list" where
  "finalize ts =
     prepend_if_absent ''<pad>''
       (prepend_if_absent ''<cls>''
         (prepend_if_absent ''<sep>''
           (prepend_if_absent ''<mask>''
             (prepend_if_absent ''<unk>'' ts))))"

text \<open>The state in which \<open>fit\<close> enters its loop: the tokens are the valid symbols, the
  words are the distinct words of the corpus, split, with their numbers of occurrences
  (\<open>nltk.FreqDist(text.split()).items()\<close>).\<close>

definition init_trainer :: "token list \<Rightarrow> string \<Rightarrow> trainer" where
  "init_trainer valid text =
     \<lparr>tokens = valid, history = [],
      word_counts = map (\<lambda>wc. \<lparr>word = split_word (fst wc), count = snd wc\<rparr>)
                        (Counter (split text))\<rparr>"

text \<open>\<open>fit\<close> up to the end of its loop. The local variable \<open>invalid_symbols\<close> is bound only
  when the constructor got no \<open>valid_symbols\<close>; reading it unbound raises \<open>NameError\<close>
  (\<open>UnboundLocalError\<close> is a subclass). The loop over \<open>invalid_symbols\<close> runs only when the
  list is empty and discards the result of \<open>text.replace\<close>, so the text stays as it is.\<close>

definition fit_train ::
  "(nat \<Rightarrow> nat \<Rightarrow> 'k::linorder) \<Rightarrow> int \<Rightarrow> token list option \<Rightarrow> int option \<Rightarrow> char list \<Rightarrow> string
     \<Rightarrow> (error + trainer) option"
where
  "fit_train true_div vocab_size valid_symbols max_symbols elems text =
     (case (case valid_symbols of
              None \<Rightarrow> (case get_symbols elems text max_symbols of
                         Inl e \<Rightarrow> Inl e
                       | Inr (valid, invalid) \<Rightarrow> Inr (valid, Some invalid))
            | Some valid \<Rightarrow> Inr (valid, None)) of
        Inl e \<Rightarrow> Some (Inl e)
      | Inr (valid, invalid_symbols) \<Rightarrow>
          (case invalid_symbols of
             None \<Rightarrow> Some (Inl NameError)
           | Some invalid \<Rightarrow> train_loop true_div vocab_size (init_trainer valid text)))"

definition fit ::
  "(nat \<Rightarrow> nat \<Rightarrow> 'k::linorder) \<Rightarrow> int \<Rightarrow> token list option \<Rightarrow> int option \<Rightarrow> char list \<Rightarrow> string
     \<Rightarrow> (error + token list) option"
where
  "fit true_div vocab_size valid_symbols max_symbols elems text =
     (case fit_train true_div vocab_size valid_symbols max_symbols elems text of
        None \<Rightarrow> None
      | Some (Inl e) \<Rightarrow> Some (Inl e)
      | Some (Inr st) \<Rightarrow> Some (Inr (finalize (tokens st))))"

text \<open>The dictionary that \<open>fit\<close> writes to \<open>token2idx.json\<close>,
  \<open>{token: number for number, token in enumerate(self.tokens)}\<close>: a token that occurs
  twice in the list keeps its last index.\<close>

definition token2idx_of :: "token list \<Rightarrow> (token \<rightharpoonup> int)" where
  "token2idx_of ts =
     fold (\<lambda>item d. d(snd item \<mapsto> int (fst item))) (enumerate 0 ts) Map.empty"

subsection \<open>Notions for stating the properties of the trainer\<close>

text \<open>The five reserved tokens, in the order in which they are expected at the front of
  the token list.\<close>

definition reserved_tokens :: "token list" where
  "reserved_tokens = [''<pad>'', ''<cls>'', ''<sep>'', ''<mask>'', ''<unk>'']"

text \<open>The state after \<open>n\<close> passes through the body of the loop of \<open>fit\<close>, whatever the
  size of the token list, and the state in which the loop makes no progress: the token
  list is below the target and no word has two neighbouring tokens, so no bigram is
  counted and none is accepted.\<close>

fun after_rounds :: "(nat \<Rightarrow> nat \<Rightarrow> 'k::linorder) \<Rightarrow> nat \<Rightarrow> trainer \<Rightarrow> error + trainer" where
  "after_rounds true_div 0 st = Inr st"
| "after_rounds true_div (Suc n) st =
     (case train_round true_div st of Inl e \<Rightarrow> Inl e | Inr st' \<Rightarrow> after_rounds true_div n st')"

definition stalled :: "int \<Rightarrow> trainer \<Rightarrow> bool" where
  "stalled vocab_size st =
     (int (length (tokens st)) < vocab_size \<and> snd (count_ngrams (word_counts st)) = [])"

text \<open>A word whose tokens are non-empty and free of whitespace, a counter whose counts
  are positive, and a trainer whose words are such words with positive numbers of
  occurrences: what \<open>fit\<close> builds from a corpus and every round keeps.\<close>

definition clean :: "token list \<Rightarrow> bool" where
  "clean w = (\<forall>t\<in>set w. t \<noteq> [] \<and> (\<forall>c\<in>set t. \<not> is_space c))"

definition positive :: "('a \<times> nat) list \<Rightarrow> bool" where
  "positive c = (\<forall>kv\<in>set c. 0 < snd kv)"

definition wf_trainer :: "trainer \<Rightarrow> bool" where
  "wf_trainer st = (\<forall>wc\<in>set (word_counts st). clean (word wc) \<and> 0 < count wc)"

text \<open>The character \<open>c\<close> occurs in no token of the token list and of the words.\<close>

definition char_free :: "char \<Rightarrow> trainer \<Rightarrow> bool" where
  "char_free c st =
     ((\<forall>t\<in>set (tokens st). c \<notin> set t)
      \<and> (\<forall>wc\<in>set (word_counts st). \<forall>t\<in>set (word wc). c \<notin> set t))"

text \<open>The exact rational quotient, for running the trainer on a concrete corpus.\<close>

definition exact_div :: "nat \<Rightarrow> nat \<Rightarrow> rat" where
  "exact_div c d = of_nat c / of_nat d"

subsection \<open>The tokenizer\<close>

record tokenizer =
  valid_symbols :: "token list"
  idx2token :: "token list"
  token2idx :: "token \<rightharpoonup> int"

text \<open>The \<open>while\<close> loop of \<open>_tokenize_word\<close> on the state \<open>(start, end, cur_output)\<close>, and
  the function itself.\<close>

function tokenize_loop ::
  "token list \<Rightarrow> string \<Rightarrow> nat \<Rightarrow> nat \<Rightarrow> token list \<Rightarrow> nat \<times> nat \<times> token list"
where
  "tokenize_loop vocab w start e cur_output =
     (if start < length w \<and> start < e
      then (if slice w start e \<in> set vocab
            then tokenize_loop vocab w e (length w) (cur_output @ [slice w start e])
            else tokenize_loop vocab w start (e - 1) cur_output)
      else (start, e, cur_output))"
  by pat_completeness auto
termination
  by (relation "measures [\<lambda>(vocab, w, start, e, cur_output). length w - start,
                          \<lambda>(vocab, w, start, e, cur_output). e - start]")
     auto

declare tokenize_loop.simps [simp del]

definition tokenize_word :: "token list \<Rightarrow> string \<Rightarrow> token list" where
  "tokenize_word vocab w =
     (case tokenize_loop vocab w 0 (length w) [] of
        (start, e, cur_output) \<Rightarrow>
          if start < length w then cur_output @ [''<unk>''] else cur_output)"

text \<open>Whether \<open>_tokenize_word\<close> takes its last branch, the one that appends \<open><unk>\<close>.\<close>

definition falls_back :: "token list \<Rightarrow> string \<Rightarrow> bool" where
  "falls_back vocab w = (fst (tokenize_loop vocab w 0 (length w) []) < length w)"

text \<open>\<open>[self.token2idx[token] for token in output]\<close>: a missing key raises \<open>KeyError\<close>.\<close>

fun lookup_tokens :: "(token \<rightharpoonup> int) \<Rightarrow> token list \<Rightarrow> error + int list" where
  "lookup_tokens m [] = Inr []"
| "lookup_tokens m (t # ts) =
     (case m t of
        None \<Rightarrow> Inl KeyError
      | Some i \<Rightarrow> (case lookup_tokens m ts of Inl e \<Rightarrow> Inl e | Inr is \<Rightarrow> Inr (i # is)))"

text \<open>\<open>encode\<close>. The loop over \<open>invalid_symbols\<close> changes nothing, as in \<open>fit\<close>.\<close>

definition encode :: "tokenizer \<Rightarrow> string \<Rightarrow> error + int list" where
  "encode tk text =
     (let words = map (\<lambda>w. CHR ''_'' # w) (split text);
          output = concat (map (tokenize_word (idx2token tk)) words)
      in lookup_tokens (token2idx tk) output)"

text \<open>\<open>xs[i]\<close> for a Python integer \<open>i\<close>: a negative index counts from the end.\<close>

definition getitem :: "'a list \<Rightarrow> int \<Rightarrow> error + 'a" where
  "getitem xs i =
     (if 0 \<le> i \<and> i < int (length xs) then Inr (xs ! nat i)
      else if - int (length xs) \<le> i \<and> i < 0 then Inr (xs ! nat (int (length xs) + i))
      else Inl IndexError)"

fun lookup_indices :: "token list \<Rightarrow> int list \<Rightarrow> error + token list" where
  "lookup_indices ts [] = Inr []"
| "lookup_indices ts (i # is) =
     (case getitem ts i of
        Inl e \<Rightarrow> Inl e
      | Inr t \<Rightarrow> (case lookup_indices ts is of Inl e \<Rightarrow> Inl e | Inr r \<Rightarrow> Inr (t # r)))"

text \<open>\<open>decode\<close>.\<close>

definition decode :: "tokenizer \<Rightarrow> int list \<Rightarrow> error + string" where
  "decode tk sequence =
     (case lookup_indices (idx2token tk) sequence of
        Inl e \<Rightarrow> Inl e
      | Inr ts \<Rightarrow> Inr (replace ''_'' '' '' (concat ts)))"

text \<open>No slice of the word that starts at \<open>start\<close> and ends in \<open>(lo, hi]\<close> is a token: the
  part of the window that the loop of \<open>_tokenize_word\<close> has already tried.\<close>

definition no_match :: "token list \<Rightarrow> string \<Rightarrow> nat \<Rightarrow> nat \<Rightarrow> nat \<Rightarrow> bool" where
  "no_match vocab w start lo hi = (\<forall>n. lo < n \<and> n \<le> hi \<longrightarrow> slice w start n \<notin> set vocab)"

text \<open>A list of tokens is the greedy segmentation of a beginning of the word: every token
  is a non-empty prefix of what is left of the word, is in the vocabulary, and no longer
  prefix of what is left is in the vocabulary.\<close>

fun greedy_tokens :: "token list \<Rightarrow> string \<Rightarrow> token list \<Rightarrow> bool" where
  "greedy_tokens vocab w [] = True"
| "greedy_tokens vocab w (t # ts) =
     (t \<noteq> [] \<and> take (length t) w = t \<and> t \<in> set vocab
      \<and> (\<forall>n\<in>set [Suc (length t)..<Suc (length w)]. take n w \<notin> set vocab)
      \<and> greedy_tokens vocab (drop (length t) w) ts)"

text \<open>The tokenizer that loads the three files written by \<open>fit\<close> for the corpus \<open>a\<close> and
  \<open>vocab_size = 3\<close>.\<close>

definition example_tokenizer :: tokenizer where
  "example_tokenizer =
     \<lparr>valid_symbols = [''a'', ''_''],
      idx2token = [''<pad>'', ''<cls>'', ''<sep>'', ''<mask>'', ''<unk>'', ''a'', ''_'', ''_a''],
      token2idx = [''<pad>'' \<mapsto> 0, ''<cls>'' \<mapsto> 1, ''<sep>'' \<mapsto> 2, ''<mask>'' \<mapsto> 3,
                   ''<unk>'' \<mapsto> 4, ''a'' \<mapsto> 5, ''_'' \<mapsto> 6, ''_a'' \<mapsto> 7]\<rparr>"

section \<open>Properties of the tokenizer\<close>

subsection \<open>Decoding\<close>

lemma replace_char: "replace [a] [b] s = map (\<lambda>c. if c = a then b else c) s"
  by (induction s) (simp_all add: replace.simps)

lemma getitem_eq:
  "getitem xs i =
     (if - int (length xs) \<le> i \<and> i < int (length xs)
      then Inr (xs ! nat (if i < 0 then int (length xs) + i else i)) else Inl IndexError)"
  by (auto simp: getitem_def)

lemma lookup_indices_eq:
  "lookup_indices ts is =
     (if \<forall>i\<in>set is. - int (length ts) \<le> i \<and> i < int (length ts)
      then Inr (map (\<lambda>i. ts ! nat (if i < 0 then int (length ts) + i else i)) is)
      else Inl IndexError)"
  by (induction "is") (simp_all add: getitem_eq)

text \<open>
  Claim C9, as stated: \<open>decode\<close> raises exactly when some index lies outside
  \<open>0 .. len(idx2token) - 1\<close>. The index \<open>-1\<close> lies outside that range, and \<open>decode\<close>
  returns the last token for it.
\<close>

theorem decode_negative_index_counterexample:
  "\<not> (0 \<le> (- 1 :: int) \<and> (- 1 :: int) \<le> int (length [''_a'', ''b'']) - 1)
   \<and> decode \<lparr>valid_symbols = [''a'', ''b'', ''_''], idx2token = [''_a'', ''b''],
              token2idx = [''_a'' \<mapsto> 0, ''b'' \<mapsto> 1]\<rparr> [- 1] = Inr ''b''"
  by (simp add: decode_def getitem_def replace.simps)

text \<open>
  Claim C9, amended: \<open>decode\<close> raises \<open>IndexError\<close> if and only if some index of the
  sequence lies outside \<open>-len(idx2token) .. len(idx2token) - 1\<close>; an index below 0 in that
  range counts from the end of the token list. For a sequence within the range the result
  is the concatenation of the token strings with every marker \<open>_\<close> replaced by one space.
\<close>

theorem decode_spec:
  "decode tk sequence =
     (if \<forall>i\<in>set sequence. - int (length (idx2token tk)) \<le> i \<and> i < int (length (idx2token tk))
      then Inr (map (\<lambda>c. if c = CHR ''_'' then CHR '' '' else c)
                  (concat (map (\<lambda>i. idx2token tk !
                                       nat (if i < 0 then int (length (idx2token tk)) + i else i))
                               sequence)))
      else Inl IndexError)"
  by (simp add: decode_def lookup_indices_eq replace_char)

theorem decode_spec_witness:
  "- int (length [''_a'', ''b'']) \<le> (0 :: int) \<and> (0 :: int) < int (length [''_a'', ''b''])
   \<and> - int (length [''_a'', ''b'']) \<le> (- 1 :: int) \<and> (- 1 :: int) < int (length [''_a'', ''b''])
   \<and> decode \<lparr>valid_symbols = [''a'', ''b'', ''_''], idx2token = [''_a'', ''b''],
              token2idx = [''_a'' \<mapsto> 0, ''b'' \<mapsto> 1]\<rparr> [0, - 1] = Inr '' ab''
   \<and> decode \<lparr>valid_symbols = [''a'', ''b'', ''_''], idx2token = [''_a'', ''b''],
              token2idx = [''_a'' \<mapsto> 0, ''b'' \<mapsto> 1]\<rparr> [0, 2] = Inl IndexError"
  using decode_spec [of "\<lparr>valid_symbols = [''a'', ''b'', ''_''], idx2token = [''_a'', ''b''],
              token2idx = [''_a'' \<mapsto> 0, ''b'' \<mapsto> 1]\<rparr>" "[0, - 1]"]
        decode_spec [of "\<lparr>valid_symbols = [''a'', ''b'', ''_''], idx2token = [''_a'', ''b''],
              token2idx = [''_a'' \<mapsto> 0, ''b'' \<mapsto> 1]\<rparr>" "[0, 2]"]
  by simp

subsection \<open>Segmenting a word\<close>

lemma slice_drop: "slice (drop k w) s e = slice w (k + s) (k + e)"
  by (simp add: slice_def add.commute)

lemma slice_0: "slice w 0 n = take n w"
  by (simp add: slice_def)

lemma take_slice: "s \<le> e \<Longrightarrow> take s w @ slice w s e = take e w"
  using take_add [of s "e - s" w] by (simp add: slice_def)

lemma tokenize_loop_stop:
  "\<not> (s < length w \<and> s < e) \<Longrightarrow> tokenize_loop vocab w s e out = (s, e, out)"
  by (subst tokenize_loop.simps) auto

lemma tokenize_loop_match:
  "s < length w \<Longrightarrow> s < e \<Longrightarrow> slice w s e \<in> set vocab \<Longrightarrow>
   tokenize_loop vocab w s e out = tokenize_loop vocab w e (length w) (out @ [slice w s e])"
  by (subst tokenize_loop.simps) simp

lemma tokenize_loop_skip:
  "s < length w \<Longrightarrow> s < e \<Longrightarrow> slice w s e \<notin> set vocab \<Longrightarrow>
   tokenize_loop vocab w s e out = tokenize_loop vocab w s (e - 1) out"
  by (subst tokenize_loop.simps) simp

lemma no_match_step:
  assumes "no_match vocab w s e hi" "slice w s e \<notin> set vocab"
  shows "no_match vocab w s (e - 1) hi"
  unfolding no_match_def
proof (intro allI impI)
  fix n assume n: "e - 1 < n \<and> n \<le> hi"
  show "slice w s n \<notin> set vocab"
  proof (cases "n = e")
    case True
    with assms(2) show ?thesis by simp
  next
    case False
    with n have "e < n \<and> n \<le> hi" by arith
    with assms(1) show ?thesis by (simp add: no_match_def)
  qed
qed

lemma tokenize_loop_inv:
  "tokenize_loop vocab w s e out = (s', e', out') \<Longrightarrow>
   s \<le> e \<Longrightarrow> e \<le> length w \<Longrightarrow> concat out = take s w \<Longrightarrow> set out \<subseteq> set vocab \<Longrightarrow>
   no_match vocab w s e (length w) \<Longrightarrow>
   s' \<le> length w \<and> concat out' = take s' w \<and> set out' \<subseteq> set vocab
   \<and> (s' < length w \<longrightarrow> e' = s' \<and> no_match vocab w s' s' (length w))"
proof (induction vocab w s e out rule: tokenize_loop.induct)
  case (1 vocab w start e cur_output)
  show ?case
  proof (cases "start < length w \<and> start < e")
    case False
    with "1.prems" show ?thesis
      by (auto simp: tokenize_loop_stop)
  next
    case True
    show ?thesis
    proof (cases "slice w start e \<in> set vocab")
      case match: True
      from True match "1.prems"(1)
      have run: "tokenize_loop vocab w e (length w) (cur_output @ [slice w start e]) = (s', e', out')"
        by (simp add: tokenize_loop_match)
      have "concat (cur_output @ [slice w start e]) = take e w"
        using "1.prems"(2,4) by (simp add: take_slice)
      moreover have "no_match vocab w e (length w) (length w)"
        by (auto simp: no_match_def)
      ultimately show ?thesis
        using "1.IH"(1) [OF True match run] "1.prems"(3,5) match by simp
    next
      case nomatch: False
      from True nomatch "1.prems"(1)
      have run: "tokenize_loop vocab w start (e - 1) cur_output = (s', e', out')"
        by (simp add: tokenize_loop_skip)
      have nm: "no_match vocab w start (e - 1) (length w)"
        using "1.prems"(6) nomatch by (rule no_match_step)
      have le: "start \<le> e - 1" "e - 1 \<le> length w"
        using True "1.prems"(3) by arith+
      show ?thesis
        using "1.IH"(2) [OF True nomatch run le "1.prems"(4,5) nm] .
    qed
  qed
qed

lemma tokenize_loop_no_match:
  "no_match vocab w s s e \<Longrightarrow>
   tokenize_loop vocab w s e out = (s, if s < length w \<and> s < e then s else e, out)"
proof (induction vocab w s e out rule: tokenize_loop.induct)
  case (1 vocab w start e cur_output)
  show ?case
  proof (cases "start < length w \<and> start < e")
    case False
    then show ?thesis
      by (auto simp: tokenize_loop_stop)
  next
    case True
    with "1.prems" have nomatch: "slice w start e \<notin> set vocab"
      by (simp add: no_match_def)
    have "no_match vocab w start start (e - 1)"
      using "1.prems" by (auto simp: no_match_def)
    from "1.IH"(2) [OF True nomatch this]
    have "tokenize_loop vocab w start (e - 1) cur_output = (start, start, cur_output)"
      using True by (auto split: if_splits)
    with True nomatch show ?thesis
      by (simp add: tokenize_loop_skip)
  qed
qed

lemma tokenize_loop_longest:
  "s < length w \<Longrightarrow> s < m \<Longrightarrow> m \<le> e \<Longrightarrow> slice w s m \<in> set vocab \<Longrightarrow> no_match vocab w s m e \<Longrightarrow>
   tokenize_loop vocab w s e out = tokenize_loop vocab w m (length w) (out @ [slice w s m])"
proof (induction vocab w s e out rule: tokenize_loop.induct)
  case (1 vocab w start e cur_output)
  have go: "start < length w \<and> start < e" using "1.prems" by simp
  show ?case
  proof (cases "e = m")
    case True
    with "1.prems" show ?thesis
      by (simp add: tokenize_loop_match)
  next
    case False
    with "1.prems" have nomatch: "slice w start e \<notin> set vocab" and lt: "m \<le> e - 1"
      by (auto simp: no_match_def)
    have "no_match vocab w start m (e - 1)"
      using "1.prems"(5) by (auto simp: no_match_def)
    from "1.IH"(2) [OF go nomatch "1.prems"(1,2) lt "1.prems"(4) this] go nomatch
    show ?thesis
      by (simp add: tokenize_loop_skip)
  qed
qed

lemma tokenize_loop_shift:
  "tokenize_loop vocab v s e out = (s', e', out') \<Longrightarrow> v = drop k w \<Longrightarrow> k \<le> length w \<Longrightarrow>
   tokenize_loop vocab w (k + s) (k + e) (pre @ out) = (k + s', k + e', pre @ out')"
proof (induction vocab v s e out rule: tokenize_loop.induct)
  case (1 vocab v start e cur_output)
  have len: "k + length v = length w" using "1.prems"(2,3) by simp
  have sl: "slice v start e = slice w (k + start) (k + e)"
    using "1.prems"(2) by (simp add: slice_drop)
  show ?case
  proof (cases "start < length v \<and> start < e")
    case False
    then have "\<not> (k + start < length w \<and> k + start < k + e)" using len by auto
    then have "tokenize_loop vocab w (k + start) (k + e) (pre @ cur_output)
                 = (k + start, k + e, pre @ cur_output)"
      by (rule tokenize_loop_stop)
    moreover have "tokenize_loop vocab v start e cur_output = (start, e, cur_output)"
      using False by (rule tokenize_loop_stop)
    ultimately show ?thesis using "1.prems"(1) by simp
  next
    case True
    then have go: "k + start < length w" "k + start < k + e" using len by simp_all
    show ?thesis
    proof (cases "slice v start e \<in> set vocab")
      case match: True
      from True match "1.prems"(1)
      have "tokenize_loop vocab v e (length v) (cur_output @ [slice v start e]) = (s', e', out')"
        by (simp add: tokenize_loop_match)
      from "1.IH"(1) [OF True match this "1.prems"(2,3)]
      have "tokenize_loop vocab w (k + e) (length w) (pre @ cur_output @ [slice w (k + start) (k + e)])
              = (k + s', k + e', pre @ out')"
        using len sl by simp
      moreover have "slice w (k + start) (k + e) \<in> set vocab" using match sl by simp
      ultimately show ?thesis
        using go by (simp add: tokenize_loop_match)
    next
      case nomatch: False
      from True nomatch "1.prems"(1)
      have "tokenize_loop vocab v start (e - 1) cur_output = (s', e', out')"
        by (simp add: tokenize_loop_skip)
      from "1.IH"(2) [OF True nomatch this "1.prems"(2,3)]
      have "tokenize_loop vocab w (k + start) (k + e - 1) (pre @ cur_output)
              = (k + s', k + e', pre @ out')"
        using True by (simp add: Nat.add_diff_assoc)
      moreover have "slice w (k + start) (k + e) \<notin> set vocab" using nomatch sl by simp
      ultimately show ?thesis
        using go by (simp add: tokenize_loop_skip)
    qed
  qed
qed

lemma tokenize_word_longest:
  assumes m: "0 < m" "m \<le> length w" "take m w \<in> set vocab"
      and longest: "\<forall>n. m < n \<and> n \<le> length w \<longrightarrow> take n w \<notin> set vocab"
  shows "tokenize_word vocab w = take m w # tokenize_word vocab (drop m w)"
proof -
  have "tokenize_loop vocab w 0 (length w) [] = tokenize_loop vocab w m (length w) ([] @ [slice w 0 m])"
    using m longest by (intro tokenize_loop_longest) (auto simp: slice_0 no_match_def)
  then have first: "tokenize_loop vocab w 0 (length w) [] = tokenize_loop vocab w m (length w) [take m w]"
    by (simp add: slice_0)
  obtain s' e' out' where rest: "tokenize_loop vocab (drop m w) 0 (length (drop m w)) [] = (s', e', out')"
    by (metis prod_cases3)
  from tokenize_loop_shift [OF rest refl m(2), of "[take m w]"] m(2)
  have "tokenize_loop vocab w m (length w) [take m w] = (m + s', m + e', take m w # out')"
    by simp
  with first rest m(2) show ?thesis
    by (auto simp: tokenize_word_def)
qed

lemma tokenize_word_no_match:
  assumes "w \<noteq> []" and "\<forall>n. 0 < n \<and> n \<le> length w \<longrightarrow> take n w \<notin> set vocab"
  shows "tokenize_word vocab w = [''<unk>'']"
proof -
  have "no_match vocab w 0 0 (length w)"
    using assms(2) by (simp add: no_match_def slice_0)
  from tokenize_loop_no_match [OF this, of "[]"] assms(1) show ?thesis
    by (simp add: tokenize_word_def)
qed

lemma tokenize_word_Nil: "tokenize_word vocab [] = []"
  by (simp add: tokenize_word_def tokenize_loop_stop)

text \<open>
  Claim C6: when some non-empty prefix of the word is in the vocabulary, the first token
  that \<open>_tokenize_word\<close> emits is a prefix of the word, is in the vocabulary, and no
  prefix of the word that is in the vocabulary is longer. The tokens after it are the
  segmentation of the rest of the word, so the same holds at every later position.
\<close>

theorem tokenize_word_longest_match:
  assumes "p \<noteq> []" "prefix p w" "p \<in> set vocab"
  shows "\<exists>t ts. tokenize_word vocab w = t # ts \<and> t \<in> set vocab \<and> prefix t w
           \<and> length p \<le> length t
           \<and> (\<forall>q. prefix q w \<and> q \<in> set vocab \<longrightarrow> length q \<le> length t)
           \<and> ts = tokenize_word vocab (drop (length t) w)"
proof -
  let ?S = "{n. 0 < n \<and> n \<le> length w \<and> take n w \<in> set vocab}"
  have pre: "\<And>q. prefix q w \<Longrightarrow> q \<in> set vocab \<Longrightarrow> q \<noteq> [] \<Longrightarrow> length q \<in> ?S"
    by (auto simp: prefix_def)
  have fin: "finite ?S" by simp
  have ne: "?S \<noteq> {}" using pre [OF assms(2,3,1)] by blast
  define m where "m = Max ?S"
  have "m \<in> ?S" unfolding m_def using fin ne by (rule Max_in)
  then have m: "0 < m" "m \<le> length w" "take m w \<in> set vocab" by simp_all
  have ge: "\<And>n. n \<in> ?S \<Longrightarrow> n \<le> m" unfolding m_def using fin by (rule Max_ge)
  then have longest: "\<forall>n. m < n \<and> n \<le> length w \<longrightarrow> take n w \<notin> set vocab"
    by (metis (mono_tags, lifting) mem_Collect_eq not_le order.strict_trans m(1))
  have len: "length (take m w) = m" using m(2) by simp
  have "\<forall>q. prefix q w \<and> q \<in> set vocab \<longrightarrow> length q \<le> m"
  proof (intro allI impI)
    fix q assume q: "prefix q w \<and> q \<in> set vocab"
    show "length q \<le> m"
    proof (cases "q = []")
      case True then show ?thesis by simp
    next
      case False
      with q pre have "length q \<in> ?S" by blast
      then show ?thesis by (rule ge)
    qed
  qed
  moreover have "prefix (take m w) w" by (rule take_is_prefix)
  moreover have "length p \<le> m" using pre [OF assms(2,3,1)] by (rule ge)
  ultimately show ?thesis
    using tokenize_word_longest [OF m longest] m(3) len by simp
qed

theorem tokenize_word_longest_match_witness:
  "''_'' \<noteq> [] \<and> prefix ''_'' ''_aa'' \<and> ''_'' \<in> set [''_'', ''a'', ''_a'']
   \<and> tokenize_word [''_'', ''a'', ''_a''] ''_aa'' = [''_a'', ''a'']
   \<and> (\<exists>t ts. tokenize_word [''_'', ''a'', ''_a''] ''_aa'' = t # ts \<and> t \<in> set [''_'', ''a'', ''_a'']
           \<and> prefix t ''_aa''
           \<and> length ''_'' \<le> length t
           \<and> (\<forall>q. prefix q ''_aa'' \<and> q \<in> set [''_'', ''a'', ''_a''] \<longrightarrow> length q \<le> length t)
           \<and> ts = tokenize_word [''_'', ''a'', ''_a''] (drop (length t) ''_aa''))"
proof -
  have h1: "''_'' \<noteq> []" by simp
  have h2: "prefix ''_'' ''_aa''" by simp
  have h3: "''_'' \<in> set [''_'', ''a'', ''_a'']" by simp
  have run: "tokenize_word [''_'', ''a'', ''_a''] ''_aa'' = [''_a'', ''a'']" by code_simp
  show ?thesis
    using tokenize_word_longest_match [OF h1 h2 h3] h1 h2 h3 run by blast
qed

subsection \<open>The tokens that a word yields\<close>

lemma tokenize_loop_result:
  assumes "tokenize_loop vocab w 0 (length w) [] = (k, e, ts)"
  shows "k \<le> length w \<and> concat ts = take k w \<and> set ts \<subseteq> set vocab
         \<and> (k < length w \<longrightarrow> e = k \<and> no_match vocab w k k (length w))"
proof -
  have "no_match vocab w 0 (length w) (length w)" by (auto simp: no_match_def)
  with tokenize_loop_inv [OF assms] show ?thesis by simp
qed

lemma tokenize_word_tokens: "set (tokenize_word vocab w) \<subseteq> insert ''<unk>'' (set vocab)"
proof -
  obtain k e ts where run: "tokenize_loop vocab w 0 (length w) [] = (k, e, ts)"
    by (metis prod_cases3)
  from tokenize_loop_result [OF run] run show ?thesis
    by (auto simp: tokenize_word_def)
qed

lemma tokenize_word_full:
  assumes "\<not> falls_back vocab w"
  shows "concat (tokenize_word vocab w) = w \<and> set (tokenize_word vocab w) \<subseteq> set vocab"
proof -
  obtain k e ts where run: "tokenize_loop vocab w 0 (length w) [] = (k, e, ts)"
    by (metis prod_cases3)
  from tokenize_loop_result [OF run] run assms show ?thesis
    by (auto simp: tokenize_word_def falls_back_def)
qed

lemma lookup_tokens_total:
  "set ts \<subseteq> dom m \<Longrightarrow> lookup_tokens m ts = Inr (map (\<lambda>t. the (m t)) ts)"
  by (induction ts) auto

lemma encode_output_tokens:
  "set (concat (map (tokenize_word vocab) ws)) \<subseteq> insert ''<unk>'' (set vocab)"
  using tokenize_word_tokens by fastforce

lemma encode_total:
  assumes "set (idx2token tk) \<subseteq> dom (token2idx tk) \<and> ''<unk>'' \<in> dom (token2idx tk)"
  shows "\<exists>ids. encode tk text = Inr ids"
proof -
  let ?out = "concat (map (tokenize_word (idx2token tk)) (map ((#) CHR ''_'') (split text)))"
  have "set ?out \<subseteq> dom (token2idx tk)"
    using encode_output_tokens [of "idx2token tk" "map ((#) CHR ''_'') (split text)"] assms by blast
  from lookup_tokens_total [OF this] show ?thesis
    by (simp add: encode_def Let_def)
qed

subsection \<open>Encoding and decoding again\<close>

lemma is_space_blank [simp]: "is_space CHR '' ''"
  by (simp add: is_space_def)

lemma split_loop_append:
  "\<forall>c\<in>set w. \<not> is_space c \<Longrightarrow> split_loop cur (w @ rest) = split_loop (cur @ w) rest"
  by (induction w arbitrary: cur) simp_all

lemma split_loop_join:
  "\<forall>w\<in>set ws. w \<noteq> [] \<and> (\<forall>c\<in>set w. \<not> is_space c) \<Longrightarrow>
   \<forall>c\<in>set cur. \<not> is_space c \<Longrightarrow>
   split_loop cur (join ws) = (case ws of [] \<Rightarrow> (if cur = [] then [] else [cur]) | w # r \<Rightarrow> (cur @ w) # r)"
proof (induction ws arbitrary: cur rule: join.induct)
  case 1
  then show ?case by simp
next
  case (2 w)
  then show ?case
    using split_loop_append [of w cur "[]"] by simp
next
  case (3 w v ws)
  have "split_loop cur (join (w # v # ws)) = split_loop (cur @ w) (CHR '' '' # join (v # ws))"
    using 3(2) split_loop_append [of w cur "CHR '' '' # join (v # ws)"] by simp
  also have "\<dots> = (cur @ w) # split_loop [] (join (v # ws))"
    using 3(2) by simp
  also have "split_loop [] (join (v # ws)) = v # ws"
    using 3(1) [of "[]"] 3(2) by simp
  finally show ?case by simp
qed

lemma split_join:
  "\<forall>w\<in>set ws. w \<noteq> [] \<and> (\<forall>c\<in>set w. \<not> is_space c) \<Longrightarrow> split (join ws) = ws"
  using split_loop_join [of ws "[]"] by (simp add: split_def split: list.splits)

lemma concat_blank_join:
  "concat (map ((#) CHR '' '') ws) = (if ws = [] then [] else CHR '' '' # join ws)"
  by (induction ws rule: join.induct) simp_all

lemma join_eq_Nil: "\<forall>w\<in>set ws. w \<noteq> [] \<Longrightarrow> join ws = [] \<longleftrightarrow> ws = []"
  by (induction ws rule: join.induct) simp_all

lemma lookup_roundtrip:
  "\<forall>t\<in>set ts. \<exists>i. m t = Some i \<and> getitem toks i = Inr t \<Longrightarrow>
   \<exists>ids. lookup_tokens m ts = Inr ids \<and> lookup_indices toks ids = Inr ts"
  by (induction ts) auto

text \<open>
  Claim C5, amended: let the text be words joined by single spaces, the words non-empty
  and free of whitespace and of the marker \<open>_\<close>, every word segmenting without the
  fall-back to \<open><unk>\<close>, and let \<open>token2idx\<close> map every token of \<open>idx2token\<close> to an index
  of that token. Then \<open>decode(encode(text))\<close> is the text with one space in front (and the
  empty text for the empty text).
\<close>

theorem decode_encode_roundtrip:
  assumes cons: "\<forall>t\<in>set (idx2token tk). \<exists>i. token2idx tk t = Some i \<and> getitem (idx2token tk) i = Inr t"
      and tx: "text = join ws"
      and ws: "\<forall>w\<in>set ws. w \<noteq> [] \<and> (\<forall>c\<in>set w. \<not> is_space c \<and> c \<noteq> CHR ''_'')
                 \<and> \<not> falls_back (idx2token tk) (CHR ''_'' # w)"
  shows "\<exists>ids. encode tk text = Inr ids
           \<and> decode tk ids = Inr (if text = [] then [] else CHR '' '' # text)"
proof -
  let ?words = "map ((#) CHR ''_'') ws"
  let ?out = "concat (map (tokenize_word (idx2token tk)) ?words)"
  have sp: "split text = ws"
    using ws tx by (simp add: split_join)
  have full: "\<forall>w\<in>set ?words. concat (tokenize_word (idx2token tk) w) = w
                 \<and> set (tokenize_word (idx2token tk) w) \<subseteq> set (idx2token tk)"
    using ws tokenize_word_full by auto
  then have "set ?out \<subseteq> set (idx2token tk)" by auto
  with cons have "\<forall>t\<in>set ?out. \<exists>i. token2idx tk t = Some i \<and> getitem (idx2token tk) i = Inr t"
    by blast
  from lookup_roundtrip [OF this] obtain ids where
    ids: "lookup_tokens (token2idx tk) ?out = Inr ids" "lookup_indices (idx2token tk) ids = Inr ?out"
    by blast
  have enc: "encode tk text = Inr ids"
    using ids(1) sp by (simp add: encode_def Let_def)
  have "concat ?out = concat ?words"
    using full by (induction ws) simp_all
  moreover have "map (\<lambda>c. if c = CHR ''_'' then CHR '' '' else c) (concat ?words)
                   = concat (map ((#) CHR '' '') ws)"
    using ws by (induction ws) (simp_all add: map_idI)
  ultimately have "decode tk ids = Inr (concat (map ((#) CHR '' '') ws))"
    using ids(2) by (simp add: decode_def replace_char)
  moreover have "text = [] \<longleftrightarrow> ws = []"
    using ws tx join_eq_Nil [of ws] by simp
  ultimately have "decode tk ids = Inr (if text = [] then [] else CHR '' '' # text)"
    using tx by (simp add: concat_blank_join)
  with enc show ?thesis by blast
qed

text \<open>
  Claim C5, as stated: the text \<open>a\<close> consists of valid symbols, is a single word and
  segments without \<open><unk>\<close>, yet decoding its encoding gives \<open>a\<close> with a space in front.
\<close>

theorem roundtrip_counterexample:
  "set ''a'' \<subseteq> set (concat (valid_symbols example_tokenizer))
   \<and> \<not> falls_back (idx2token example_tokenizer) ''_a''
   \<and> encode example_tokenizer ''a'' = Inr [7]
   \<and> decode example_tokenizer [7] = Inr '' a''
   \<and> '' a'' \<noteq> ''a''"
  by code_simp

theorem decode_encode_roundtrip_witness:
  "''a a'' = join [''a'', ''a'']
   \<and> \<not> falls_back (idx2token example_tokenizer) ''_a''
   \<and> (\<exists>ids. encode example_tokenizer ''a a'' = Inr ids
           \<and> decode example_tokenizer ids = Inr (if ''a a'' = [] then [] else CHR '' '' # ''a a''))
   \<and> encode example_tokenizer ''a a'' = Inr [7, 7]
   \<and> decode example_tokenizer [7, 7] = Inr '' a a''"
proof -
  have h1: "\<forall>t\<in>set (idx2token example_tokenizer).
              \<exists>i. token2idx example_tokenizer t = Some i \<and> getitem (idx2token example_tokenizer) i = Inr t"
    by (simp add: example_tokenizer_def getitem_def)
  have h2: "''a a'' = join [''a'', ''a'']" by simp
  have fb: "\<not> falls_back (idx2token example_tokenizer) ''_a''" by code_simp
  have h3: "\<forall>w\<in>set [''a'', ''a'']. w \<noteq> [] \<and> (\<forall>c\<in>set w. \<not> is_space c \<and> c \<noteq> CHR ''_'')
                 \<and> \<not> falls_back (idx2token example_tokenizer) (CHR ''_'' # w)"
    using fb by (simp add: is_space_def)
  have run: "encode example_tokenizer ''a a'' = Inr [7, 7]"
            "decode example_tokenizer [7, 7] = Inr '' a a''"
    by code_simp+
  from decode_encode_roundtrip [OF h1 h2 h3] h2 fb run show ?thesis by blast
qed

section \<open>Properties of the trainer\<close>

subsection \<open>The symbols\<close>

text \<open>
  Claim C10: when the trainer was constructed with a list of valid symbols, \<open>fit\<close> raises
  \<open>NameError\<close> for every corpus, before the word counts are built and before the first
  round: \<open>invalid_symbols\<close> is bound only in the branch that derives the symbols.
\<close>

theorem fit_given_symbols_NameError:
  "fit true_div vocab_size (Some valid) max_symbols elems text = Some (Inl NameError)"
  by (simp add: fit_def fit_train_def)

text \<open>
  Claim C7: with a maximum \<open>N\<close> the symbol extraction returns the \<open>N\<close> most frequent
  characters. The code calls \<open>most_common\<close> on the class \<open>FreqDist\<close> and not on the
  frequency distribution of the text, so for every corpus and every \<open>N\<close> the extraction
  raises, and \<open>fit\<close> with it.
\<close>

theorem get_symbols_capped_raises:
  "get_symbols elems text (Some n) = Inl AttributeError
   \<and> fit true_div vocab_size None (Some n) elems text = Some (Inl AttributeError)"
  by (simp add: fit_def fit_train_def get_symbols_def most_common_on_class_def)

subsection \<open>Selecting the merges of a round\<close>

lemma unigrams_of_simps [simp]:
  "unigrams_of [] = {}"
  "unigrams_of (b # bs) = {fst b, snd b} \<union> unigrams_of bs"
  by (auto simp: unigrams_of_def)

lemma independed_loop_spec:
  "independed_loop xs m u n = (m', n') \<Longrightarrow>
   \<exists>k\<le>length xs.
      m' = m @ map fst (take k xs)
    \<and> n' = n @ map (\<lambda>b. fst b @ snd b) (map fst (take k xs))
    \<and> (\<forall>pre b post. map fst (take k xs) = pre @ b # post \<longrightarrow>
          fst b \<notin> set u \<union> unigrams_of pre \<and> snd b \<notin> set u \<union> unigrams_of pre)
    \<and> (k < length xs \<longrightarrow>
          fst (fst (xs ! k)) \<in> set u \<union> unigrams_of (map fst (take k xs))
        \<or> snd (fst (xs ! k)) \<in> set u \<union> unigrams_of (map fst (take k xs)))"
proof (induction xs arbitrary: m u n)
  case Nil
  then show ?case by simp
next
  case (Cons x xs)
  let ?b = "fst x"
  show ?case
  proof (cases "fst ?b \<notin> set u \<and> snd ?b \<notin> set u")
    case True
    with Cons.prems have
      "independed_loop xs (m @ [?b]) (u @ [fst ?b, snd ?b]) (n @ [fst ?b @ snd ?b]) = (m', n')"
      by (simp add: Let_def)
    from Cons.IH [OF this] obtain k where k: "k \<le> length xs"
      "m' = (m @ [?b]) @ map fst (take k xs)"
      "n' = (n @ [fst ?b @ snd ?b]) @ map (\<lambda>b. fst b @ snd b) (map fst (take k xs))"
      "\<forall>pre b post. map fst (take k xs) = pre @ b # post \<longrightarrow>
          fst b \<notin> set (u @ [fst ?b, snd ?b]) \<union> unigrams_of pre
        \<and> snd b \<notin> set (u @ [fst ?b, snd ?b]) \<union> unigrams_of pre"
      "k < length xs \<longrightarrow>
          fst (fst (xs ! k)) \<in> set (u @ [fst ?b, snd ?b]) \<union> unigrams_of (map fst (take k xs))
        \<or> snd (fst (xs ! k)) \<in> set (u @ [fst ?b, snd ?b]) \<union> unigrams_of (map fst (take k xs))"
      by blast
    have "\<forall>pre b post. map fst (take (Suc k) (x # xs)) = pre @ b # post \<longrightarrow>
          fst b \<notin> set u \<union> unigrams_of pre \<and> snd b \<notin> set u \<union> unigrams_of pre"
    proof (intro allI impI)
      fix pre b post
      assume eq: "map fst (take (Suc k) (x # xs)) = pre @ b # post"
      show "fst b \<notin> set u \<union> unigrams_of pre \<and> snd b \<notin> set u \<union> unigrams_of pre"
      proof (cases pre)
        case Nil
        with eq True show ?thesis by simp
      next
        case (Cons p pre')
        with eq have *: "p = ?b" "map fst (take k xs) = pre' @ b # post" by simp_all
        from k(4) *(2) have "fst b \<notin> set (u @ [fst ?b, snd ?b]) \<union> unigrams_of pre'
          \<and> snd b \<notin> set (u @ [fst ?b, snd ?b]) \<union> unigrams_of pre'" by blast
        with Cons *(1) show ?thesis by auto
      qed
    qed
    moreover have "Suc k < length (x # xs) \<longrightarrow>
          fst (fst ((x # xs) ! Suc k)) \<in> set u \<union> unigrams_of (map fst (take (Suc k) (x # xs)))
        \<or> snd (fst ((x # xs) ! Suc k)) \<in> set u \<union> unigrams_of (map fst (take (Suc k) (x # xs)))"
      using k(5) by auto
    ultimately show ?thesis
      using k(1,2,3) by (intro exI [of _ "Suc k"]) simp
  next
    case False
    with Cons.prems have "m' = m" "n' = n" by (auto simp: Let_def)
    with False show ?thesis by (intro exI [of _ 0]) auto
  qed
qed

text \<open>
  Claim C2: the bigrams accepted in one round are the first \<open>k\<close> bigrams of the sorted
  list; each of them has neither of its tokens in a bigram accepted before it; the scan
  stops at the first bigram that has such a token, so nothing after it is accepted; and
  the new tokens are the concatenations of the accepted bigrams. Hence two different
  accepted bigrams of a round share no token.
\<close>

theorem get_independed_bigrams_spec:
  "get_independed_bigrams bigram_mi = (bigrams_to_merge, new_tokens) \<Longrightarrow>
     (\<exists>k\<le>length bigram_mi.
         bigrams_to_merge = map fst (take k bigram_mi)
       \<and> (k < length bigram_mi \<longrightarrow>
             fst (fst (bigram_mi ! k)) \<in> unigrams_of bigrams_to_merge
           \<or> snd (fst (bigram_mi ! k)) \<in> unigrams_of bigrams_to_merge))
   \<and> new_tokens = map (\<lambda>b. fst b @ snd b) bigrams_to_merge
   \<and> (\<forall>pre b post. bigrams_to_merge = pre @ b # post \<longrightarrow>
         fst b \<notin> unigrams_of pre \<and> snd b \<notin> unigrams_of pre)
   \<and> (\<forall>i j. i < j \<and> j < length bigrams_to_merge \<longrightarrow>
         {fst (bigrams_to_merge ! i), snd (bigrams_to_merge ! i)}
         \<inter> {fst (bigrams_to_merge ! j), snd (bigrams_to_merge ! j)} = {})"
proof -
  assume "get_independed_bigrams bigram_mi = (bigrams_to_merge, new_tokens)"
  then have "independed_loop bigram_mi [] [] [] = (bigrams_to_merge, new_tokens)"
    by (simp add: get_independed_bigrams_def)
  from independed_loop_spec [OF this] obtain k where k: "k \<le> length bigram_mi"
    "bigrams_to_merge = map fst (take k bigram_mi)"
    "new_tokens = map (\<lambda>b. fst b @ snd b) (map fst (take k bigram_mi))"
    "\<forall>pre b post. map fst (take k bigram_mi) = pre @ b # post \<longrightarrow>
          fst b \<notin> unigrams_of pre \<and> snd b \<notin> unigrams_of pre"
    "k < length bigram_mi \<longrightarrow>
          fst (fst (bigram_mi ! k)) \<in> unigrams_of (map fst (take k bigram_mi))
        \<or> snd (fst (bigram_mi ! k)) \<in> unigrams_of (map fst (take k bigram_mi))"
    by auto
  have sep: "\<forall>pre b post. bigrams_to_merge = pre @ b # post \<longrightarrow>
         fst b \<notin> unigrams_of pre \<and> snd b \<notin> unigrams_of pre"
    using k(2,4) by simp
  have "\<forall>i j. i < j \<and> j < length bigrams_to_merge \<longrightarrow>
         {fst (bigrams_to_merge ! i), snd (bigrams_to_merge ! i)}
         \<inter> {fst (bigrams_to_merge ! j), snd (bigrams_to_merge ! j)} = {}"
  proof (intro allI impI)
    fix i j assume ij: "i < j \<and> j < length bigrams_to_merge"
    let ?pre = "take j bigrams_to_merge"
    have "bigrams_to_merge = ?pre @ bigrams_to_merge ! j # drop (Suc j) bigrams_to_merge"
      using ij by (simp add: id_take_nth_drop)
    with sep have n: "fst (bigrams_to_merge ! j) \<notin> unigrams_of ?pre"
      "snd (bigrams_to_merge ! j) \<notin> unigrams_of ?pre" by blast+
    have "bigrams_to_merge ! i \<in> set ?pre"
      using ij by (metis in_set_conv_nth length_take min_less_iff_conj nth_take order_less_trans)
    then have "{fst (bigrams_to_merge ! i), snd (bigrams_to_merge ! i)} \<subseteq> unigrams_of ?pre"
      by (auto simp: unigrams_of_def)
    with n show "{fst (bigrams_to_merge ! i), snd (bigrams_to_merge ! i)}
         \<inter> {fst (bigrams_to_merge ! j), snd (bigrams_to_merge ! j)} = {}"
      by auto
  qed
  with sep k show ?thesis by auto
qed

theorem get_independed_bigrams_spec_witness:
  "get_independed_bigrams [((''a'', ''b''), 3 :: nat), ((''c'', ''c''), 2), ((''b'', ''d''), 1), ((''e'', ''f''), 0)]
     = ([(''a'', ''b''), (''c'', ''c'')], [''ab'', ''cc''])
   \<and> {fst ([(''a'', ''b''), (''c'', ''c'')] ! 0), snd ([(''a'', ''b''), (''c'', ''c'')] ! 0)}
       \<inter> {fst ([(''a'', ''b''), (''c'', ''c'')] ! 1), snd ([(''a'', ''b''), (''c'', ''c'')] ! 1)} = {}"
proof -
  have run: "get_independed_bigrams [((''a'', ''b''), 3 :: nat), ((''c'', ''c''), 2), ((''b'', ''d''), 1), ((''e'', ''f''), 0)]
     = ([(''a'', ''b''), (''c'', ''c'')], [''ab'', ''cc''])"
    by (simp add: get_independed_bigrams_def)
  from get_independed_bigrams_spec [OF run]
  have "\<forall>i j. i < j \<and> j < length [(''a'', ''b''), (''c'', ''c'')] \<longrightarrow>
         {fst ([(''a'', ''b''), (''c'', ''c'')] ! i), snd ([(''a'', ''b''), (''c'', ''c'')] ! i)}
         \<inter> {fst ([(''a'', ''b''), (''c'', ''c'')] ! j), snd ([(''a'', ''b''), (''c'', ''c'')] ! j)} = {}"
    by blast
  then have "{fst ([(''a'', ''b''), (''c'', ''c'')] ! 0), snd ([(''a'', ''b''), (''c'', ''c'')] ! 0)}
       \<inter> {fst ([(''a'', ''b''), (''c'', ''c'')] ! 1), snd ([(''a'', ''b''), (''c'', ''c'')] ! 1)} = {}"
    by (metis One_nat_def length_Cons list.size(3) zero_less_one lessI)
  with run show ?thesis by blast
qed

subsection \<open>Applying the merges to a word\<close>

text \<open>
  Claim C4: an accepted merge joins the two tokens only where they stand next to each
  other as whole elements of the word. The code joins the word with spaces and replaces
  the string \<open>left + ' ' + right\<close>, so it also joins \<open>right\<close> to a longer token that ends
  with \<open>left\<close>. In the corpus \<open>ab xab b q\<close> the first round merges \<open>(x, a)\<close> and the second
  round accepts only \<open>(a, b)\<close>; applying it turns the word \<open>_, xa, b\<close> into \<open>_, xab\<close>,
  whose second element is neither a token of the vocabulary nor the result of an accepted
  merge. All scores of this run are \<open>1/2\<close>, \<open>1/3\<close>, \<open>1/4\<close>, \<open>1/8\<close> or \<open>1/12\<close>: equal
  quotients are equal floats and different ones are different floats.
\<close>

theorem merge_across_token_boundary:
  "merge_bigrams_in_word [''_'', ''xa'', ''b''] [(''a'', ''b'')] = [''_'', ''xab'']
   \<and> fit_train exact_div 8 None None ''abx q'' ''ab xab b q''
       = Some (Inr \<lparr>tokens = [''a'', ''b'', ''x'', '' '', ''q'', ''_'', ''xa'', ''ab''],
                    history = [(''x'', ''a''), (''a'', ''b'')],
                    word_counts = [\<lparr>word = [''_'', ''ab''], count = 1\<rparr>,
                                   \<lparr>word = [''_'', ''xab''], count = 1\<rparr>,
                                   \<lparr>word = [''_'', ''b''], count = 1\<rparr>,
                                   \<lparr>word = [''_'', ''q''], count = 1\<rparr>]\<rparr>)"
  by code_simp

subsection \<open>Words, counters and scores\<close>

lemma split_loop_clean:
  "\<forall>c\<in>set cur. \<not> is_space c \<Longrightarrow> clean (split_loop cur s)"
proof (induction s arbitrary: cur)
  case Nil
  then show ?case by (simp add: clean_def)
next
  case (Cons a s)
  show ?case
  proof (cases "is_space a")
    case True
    have "clean (split_loop [] s)" by (rule Cons.IH) simp
    with True Cons.prems show ?thesis by (auto simp: clean_def)
  next
    case False
    with Cons.prems have "\<forall>c\<in>set (cur @ [a]). \<not> is_space c" by simp
    from Cons.IH [OF this] False show ?thesis by simp
  qed
qed

lemma split_clean: "clean (split s)"
  by (simp add: split_def split_loop_clean)

lemma split_join_clean: "clean w \<Longrightarrow> split (join w) = w"
  by (rule split_join) (simp add: clean_def)

lemma merge_nothing: "clean w \<Longrightarrow> merge_bigrams_in_word w [] = w"
  by (simp add: merge_bigrams_in_word_def split_join_clean)

lemma merge_clean: "clean (merge_bigrams_in_word w bs)"
  by (simp add: merge_bigrams_in_word_def split_clean)

lemma split_word_clean: "clean (split_word w)"
  using split_clean [of "replace ''< u n k >'' ''<unk>'' (join (map (\<lambda>c. [c]) w))"]
  by (simp add: split_word_def clean_def is_space_def)

lemma counter_add_keys: "fst ` set (counter_add k v c) = insert k (fst ` set c)"
  by (induction k v c rule: counter_add.induct) auto

lemma counter_update_keys: "fst ` set (counter_update c d) = fst ` set c \<union> fst ` set d"
  unfolding counter_update_def
  by (induction d arbitrary: c) (auto simp: counter_add_keys)

lemma Counter_keys_aux: "fst ` set (fold (\<lambda>k. counter_add k 1) seq c) = fst ` set c \<union> set seq"
  by (induction seq arbitrary: c) (auto simp: counter_add_keys)

lemma Counter_keys: "fst ` set (Counter seq) = set seq"
  using Counter_keys_aux [of seq "[]"] by (simp add: Counter_def)

lemma count_multiply_keys: "fst ` set (count_multiply seq n) = set seq"
  using Counter_keys [of seq] by (force simp: count_multiply_def image_iff)

lemma count_ngrams_fold_keys:
  "fold (\<lambda>element (unigram_counts, bigram_counts).
             (counter_update unigram_counts (count_multiply (word element) (count element)),
              counter_update bigram_counts
                (count_multiply (bigrams (word element)) (count element))))
          wcs (u, b) = (u', b') \<Longrightarrow>
   fst ` set u' = fst ` set u \<union> (\<Union>wc\<in>set wcs. set (word wc))
   \<and> fst ` set b' = fst ` set b \<union> (\<Union>wc\<in>set wcs. set (bigrams (word wc)))"
proof (induction wcs arbitrary: u b)
  case Nil
  then show ?case by simp
next
  case (Cons wc wcs)
  from Cons.prems Cons.IH [of "counter_update u (count_multiply (word wc) (count wc))"
      "counter_update b (count_multiply (bigrams (word wc)) (count wc))"]
  show ?case
    by (auto simp: counter_update_keys count_multiply_keys)
qed

lemma count_ngrams_keys:
  "count_ngrams wcs = (u, b) \<Longrightarrow>
   fst ` set u = (\<Union>wc\<in>set wcs. set (word wc))
   \<and> fst ` set b = (\<Union>wc\<in>set wcs. set (bigrams (word wc)))"
  using count_ngrams_fold_keys [of wcs "[]" "[]" u b] by (simp add: count_ngrams_def)

lemma counter_add_positive: "positive c \<Longrightarrow> 0 < v \<Longrightarrow> positive (counter_add k v c)"
  by (induction k v c rule: counter_add.induct) (auto simp: positive_def)

lemma counter_update_positive: "positive c \<Longrightarrow> positive d \<Longrightarrow> positive (counter_update c d)"
  unfolding counter_update_def
proof (induction d arbitrary: c)
  case Nil
  then show ?case by simp
next
  case (Cons kv d)
  from Cons.prems have "positive (counter_add (fst kv) (snd kv) c)" "positive d"
    by (auto simp: positive_def intro: counter_add_positive [unfolded positive_def, rule_format])
  from Cons.IH [OF this] show ?case by simp
qed

lemma Counter_positive_aux: "positive c \<Longrightarrow> positive (fold (\<lambda>k. counter_add k 1) seq c)"
  by (induction seq arbitrary: c) (simp_all add: counter_add_positive)

lemma Counter_positive: "positive (Counter seq)"
  using Counter_positive_aux [of "[]" seq] by (simp add: Counter_def positive_def)

lemma count_multiply_positive: "0 < n \<Longrightarrow> positive (count_multiply seq n)"
  using Counter_positive [of seq] by (auto simp: count_multiply_def positive_def)

lemma counter_get_positive: "positive c \<Longrightarrow> k \<in> fst ` set c \<Longrightarrow> 0 < counter_get c k"
proof -
  assume p: "positive c" and k: "k \<in> fst ` set c"
  from k obtain v where "map_of c k = Some v"
    by (metis map_of_eq_None_iff not_Some_eq)
  moreover from this have "(k, v) \<in> set c" by (rule map_of_SomeD)
  ultimately show ?thesis using p by (auto simp: counter_get_def positive_def)
qed

lemma count_ngrams_fold_positive:
  "fold (\<lambda>element (unigram_counts, bigram_counts).
             (counter_update unigram_counts (count_multiply (word element) (count element)),
              counter_update bigram_counts
                (count_multiply (bigrams (word element)) (count element))))
          wcs (u, b) = (u', b') \<Longrightarrow>
   positive u \<Longrightarrow> \<forall>wc\<in>set wcs. 0 < count wc \<Longrightarrow> positive u'"
proof (induction wcs arbitrary: u b)
  case Nil
  then show ?case by simp
next
  case (Cons wc wcs)
  have "positive (counter_update u (count_multiply (word wc) (count wc)))"
    using Cons.prems(2,3) by (simp add: counter_update_positive count_multiply_positive)
  with Cons.prems(1,3) Cons.IH [of "counter_update u (count_multiply (word wc) (count wc))"
      "counter_update b (count_multiply (bigrams (word wc)) (count wc))"]
  show ?case by simp
qed

lemma count_ngrams_positive:
  "count_ngrams wcs = (u, b) \<Longrightarrow> \<forall>wc\<in>set wcs. 0 < count wc \<Longrightarrow> positive u"
  using count_ngrams_fold_positive [of wcs "[]" "[]" u b]
  by (simp add: count_ngrams_def positive_def)

lemma bigrams_subset: "set (bigrams w) \<subseteq> set w \<times> set w"
proof
  fix p assume "p \<in> set (bigrams w)"
  then have p: "(fst p, snd p) \<in> set (zip w (tl w))" by (simp add: bigrams_def)
  then have "fst p \<in> set w" by (rule set_zip_leftD)
  moreover from p have "snd p \<in> set (tl w)" by (rule set_zip_rightD)
  then have "snd p \<in> set w" by (cases w) simp_all
  ultimately show "p \<in> set w \<times> set w" by (simp add: mem_Times_iff)
qed

lemma bigram_scores_total:
  "\<forall>item\<in>set b. 0 < counter_get u (fst (fst item)) \<and> 0 < counter_get u (snd (fst item)) \<Longrightarrow>
   \<exists>ms. bigram_scores td u b = Inr ms \<and> map fst ms = map fst b"
  by (induction b) (auto simp: Let_def)

lemma bigram_scores_keys:
  "bigram_scores td u b = Inr ms \<Longrightarrow> map fst ms = map fst b"
  by (induction b arbitrary: ms) (auto simp: Let_def split: if_splits sum.splits)

lemma count_ngrams_scores:
  assumes "\<forall>wc\<in>set wcs. 0 < count wc" "count_ngrams wcs = (u, b)"
  shows "\<exists>ms. bigram_scores td u b = Inr ms \<and> map fst ms = map fst b"
proof (rule bigram_scores_total, intro ballI)
  fix item assume "item \<in> set b"
  then have "fst item \<in> fst ` set b" by simp
  with count_ngrams_keys [OF assms(2)] obtain wc where
    wc: "wc \<in> set wcs" "fst item \<in> set (bigrams (word wc))" by auto
  with bigrams_subset [of "word wc"] have "fst (fst item) \<in> set (word wc)" "snd (fst item) \<in> set (word wc)"
    by (auto simp: mem_Times_iff)
  with wc(1) count_ngrams_keys [OF assms(2)]
  have "fst (fst item) \<in> fst ` set u" "snd (fst item) \<in> fst ` set u" by auto
  with count_ngrams_positive [OF assms(2,1)]
  show "0 < counter_get u (fst (fst item)) \<and> 0 < counter_get u (snd (fst item))"
    by (simp add: counter_get_positive)
qed

subsection \<open>One round\<close>

lemma sort_reverse_Nil_iff: "sort_reverse xs = [] \<longleftrightarrow> xs = []"
  using length_sort [of snd "rev xs"] by (auto simp: sort_reverse_def simp del: length_sort)

lemma sort_reverse_set: "set (sort_reverse xs) = set xs"
  by (simp add: sort_reverse_def)

lemma get_independed_Nil: "get_independed_bigrams [] = ([], [])"
  by (simp add: get_independed_bigrams_def)

lemma get_independed_props:
  assumes "get_independed_bigrams xs = (m, n)"
  shows "n = map (\<lambda>b. fst b @ snd b) m" "set m \<subseteq> fst ` set xs" "xs \<noteq> [] \<Longrightarrow> n \<noteq> []"
proof -
  from assms have run: "independed_loop xs [] [] [] = (m, n)"
    by (simp add: get_independed_bigrams_def)
  from independed_loop_spec [OF run] obtain k where
    k: "k \<le> length xs" "m = map fst (take k xs)" "n = map (\<lambda>b. fst b @ snd b) (map fst (take k xs))"
    by auto
  show "n = map (\<lambda>b. fst b @ snd b) m" using k by simp
  show "set m \<subseteq> fst ` set xs" using k(2) by (auto dest: in_set_takeD)
  show "n \<noteq> []" if "xs \<noteq> []"
  proof (cases xs)
    case Nil
    with that show ?thesis by simp
  next
    case (Cons x r)
    with run have "independed_loop r [fst x] [fst (fst x), snd (fst x)] [fst (fst x) @ snd (fst x)] = (m, n)"
      by (simp add: Let_def)
    from independed_loop_spec [OF this] show ?thesis by auto
  qed
qed

lemma train_round_wf:
  assumes "wf_trainer st"
  shows "\<exists>ms merges new.
           bigram_scores td (fst (count_ngrams (word_counts st))) (snd (count_ngrams (word_counts st))) = Inr ms
         \<and> map fst ms = map fst (snd (count_ngrams (word_counts st)))
         \<and> get_independed_bigrams (sort_reverse ms) = (merges, new)
         \<and> train_round td st =
             Inr \<lparr>tokens = tokens st @ new, history = history st @ merges,
                  word_counts = map (\<lambda>element. element\<lparr>word := merge_bigrams_in_word (word element) merges\<rparr>)
                                    (word_counts st)\<rparr>"
proof -
  obtain u b where cn: "count_ngrams (word_counts st) = (u, b)" by (cases "count_ngrams (word_counts st)")
  from assms have "\<forall>wc\<in>set (word_counts st). 0 < count wc" by (simp add: wf_trainer_def)
  from count_ngrams_scores [OF this cn, of td] obtain ms where
    ms: "bigram_scores td u b = Inr ms" "map fst ms = map fst b" by blast
  obtain merges new where g: "get_independed_bigrams (sort_reverse ms) = (merges, new)"
    by (cases "get_independed_bigrams (sort_reverse ms)")
  show ?thesis
    using cn ms g by (simp add: train_round_def)
qed

lemma wf_trainer_merge:
  "wf_trainer st \<Longrightarrow>
   wf_trainer \<lparr>tokens = ts, history = h,
               word_counts = map (\<lambda>element. element\<lparr>word := merge_bigrams_in_word (word element) merges\<rparr>)
                                 (word_counts st)\<rparr>"
  by (auto simp: wf_trainer_def merge_clean)

lemma train_round_total:
  assumes "wf_trainer st"
  shows "\<exists>st'. train_round td st = Inr st' \<and> wf_trainer st'
           \<and> length (tokens st) \<le> length (tokens st')
           \<and> (snd (count_ngrams (word_counts st)) \<noteq> [] \<longrightarrow> length (tokens st) < length (tokens st'))"
proof -
  from train_round_wf [OF assms, of td] obtain ms merges new where
    r0: "bigram_scores td (fst (count_ngrams (word_counts st))) (snd (count_ngrams (word_counts st))) = Inr ms"
    and r: "map fst ms = map fst (snd (count_ngrams (word_counts st)))"
       "get_independed_bigrams (sort_reverse ms) = (merges, new)"
       "train_round td st =
             Inr \<lparr>tokens = tokens st @ new, history = history st @ merges,
                  word_counts = map (\<lambda>element. element\<lparr>word := merge_bigrams_in_word (word element) merges\<rparr>)
                                    (word_counts st)\<rparr>"
    by blast
  have "new \<noteq> []" if "snd (count_ngrams (word_counts st)) \<noteq> []"
  proof -
    from that r(1) have "ms \<noteq> []" by auto
    then have "sort_reverse ms \<noteq> []" by (simp add: sort_reverse_Nil_iff)
    with get_independed_props(3) [OF r(2)] show ?thesis by simp
  qed
  with r(3) wf_trainer_merge [OF assms] show ?thesis by auto
qed

lemma train_round_stalled:
  assumes "wf_trainer st" "snd (count_ngrams (word_counts st)) = []"
  shows "train_round td st = Inr st"
proof -
  from train_round_wf [OF assms(1), of td] obtain ms merges new where
    r0: "bigram_scores td (fst (count_ngrams (word_counts st))) (snd (count_ngrams (word_counts st))) = Inr ms"
    and r: "map fst ms = map fst (snd (count_ngrams (word_counts st)))"
       "get_independed_bigrams (sort_reverse ms) = (merges, new)"
       "train_round td st =
             Inr \<lparr>tokens = tokens st @ new, history = history st @ merges,
                  word_counts = map (\<lambda>element. element\<lparr>word := merge_bigrams_in_word (word element) merges\<rparr>)
                                    (word_counts st)\<rparr>"
    by blast
  from r(1) assms(2) have "ms = []" by simp
  with r(2) have e: "merges = []" "new = []"
    by (simp_all add: sort_reverse_def get_independed_Nil)
  have "map (\<lambda>element. element\<lparr>word := merge_bigrams_in_word (word element) []\<rparr>) (word_counts st)
          = word_counts st"
    using assms(1) by (intro map_idI) (simp add: wf_trainer_def merge_nothing)
  with r(3) e show ?thesis by simp
qed

subsection \<open>The training loop\<close>

lemma train_loop_exit:
  "\<not> int (length (tokens st)) < vs \<Longrightarrow> train_loop td vs st = Some (Inr st)"
  by (subst train_loop.simps) simp

lemma train_loop_step:
  "int (length (tokens st)) < vs \<Longrightarrow> train_round td st = Inr st' \<Longrightarrow>
   train_loop td vs st = train_loop td vs st'"
  by (subst train_loop.simps) simp

lemma train_loop_error:
  "int (length (tokens st)) < vs \<Longrightarrow> train_round td st = Inl e \<Longrightarrow>
   train_loop td vs st = Some (Inl e)"
  by (subst train_loop.simps) simp

lemma train_loop_stalled_aux:
  assumes "train_loop td vs st = Some y"
  shows "\<not> (wf_trainer st \<and> stalled vs st)"
proof (rule train_loop.raw_induct
    [where P = "\<lambda>td vs st y. \<not> (wf_trainer st \<and> stalled vs st)", OF _ assms])
  fix loop :: "(nat \<Rightarrow> nat \<Rightarrow> 'a) \<Rightarrow> int \<Rightarrow> trainer \<Rightarrow> (error + trainer) option"
    and td :: "nat \<Rightarrow> nat \<Rightarrow> 'a" and vs st y
  assume IH: "\<And>td vs st y. loop td vs st = Some y \<Longrightarrow> \<not> (wf_trainer st \<and> stalled vs st)"
    and body: "(if int (length (tokens st)) < vs
                then case train_round td st of Inl e \<Rightarrow> Some (Inl e) | Inr st' \<Rightarrow> loop td vs st'
                else Some (Inr st)) = Some y"
  show "\<not> (wf_trainer st \<and> stalled vs st)"
  proof
    assume a: "wf_trainer st \<and> stalled vs st"
    then have "train_round td st = Inr st" "int (length (tokens st)) < vs"
      by (simp_all add: train_round_stalled stalled_def)
    with body have "loop td vs st = Some y" by simp
    from IH [OF this] a show False by simp
  qed
qed

lemma train_loop_stalled:
  assumes "wf_trainer st" "stalled vs st"
  shows "train_loop td vs st = None"
  using train_loop_stalled_aux [of td vs st] assms by (cases "train_loop td vs st") auto

lemma train_loop_returns_aux:
  assumes "train_loop td vs st = Some r"
  shows "wf_trainer st \<longrightarrow> (\<exists>st'. r = Inr st' \<and> wf_trainer st' \<and> vs \<le> int (length (tokens st'))
           \<and> (\<exists>n. after_rounds td n st = Inr st'))"
proof (rule train_loop.raw_induct
    [where P = "\<lambda>td vs st r. wf_trainer st \<longrightarrow> (\<exists>st'. r = Inr st' \<and> wf_trainer st'
           \<and> vs \<le> int (length (tokens st')) \<and> (\<exists>n. after_rounds td n st = Inr st'))", OF _ assms])
  fix loop :: "(nat \<Rightarrow> nat \<Rightarrow> 'a) \<Rightarrow> int \<Rightarrow> trainer \<Rightarrow> (error + trainer) option"
    and td :: "nat \<Rightarrow> nat \<Rightarrow> 'a" and vs st r
  assume IH: "\<And>td vs st r. loop td vs st = Some r \<Longrightarrow>
           wf_trainer st \<longrightarrow> (\<exists>st'. r = Inr st' \<and> wf_trainer st'
           \<and> vs \<le> int (length (tokens st')) \<and> (\<exists>n. after_rounds td n st = Inr st'))"
    and body: "(if int (length (tokens st)) < vs
                then case train_round td st of Inl e \<Rightarrow> Some (Inl e) | Inr st' \<Rightarrow> loop td vs st'
                else Some (Inr st)) = Some r"
  show "wf_trainer st \<longrightarrow> (\<exists>st'. r = Inr st' \<and> wf_trainer st'
           \<and> vs \<le> int (length (tokens st')) \<and> (\<exists>n. after_rounds td n st = Inr st'))"
  proof
    assume wf: "wf_trainer st"
    show "\<exists>st'. r = Inr st' \<and> wf_trainer st' \<and> vs \<le> int (length (tokens st'))
           \<and> (\<exists>n. after_rounds td n st = Inr st')"
    proof (cases "int (length (tokens st)) < vs")
      case False
      with body have "r = Inr st" by simp
      moreover have "after_rounds td 0 st = Inr st" by simp
      ultimately show ?thesis using wf False by (metis not_less)
    next
      case True
      from train_round_total [OF wf, of td] obtain st1 where
        st1: "train_round td st = Inr st1" "wf_trainer st1" by blast
      with True body have "loop td vs st1 = Some r" by simp
      from IH [OF this] st1(2) obtain st' n where
        r: "r = Inr st'" "wf_trainer st'" "vs \<le> int (length (tokens st'))"
           "after_rounds td n st1 = Inr st'" by blast
      from r(4) st1(1) have "after_rounds td (Suc n) st = Inr st'" by simp
      with r(1,2,3) show ?thesis by blast
    qed
  qed
qed

lemma train_loop_returns:
  assumes "train_loop td vs st = Some r" "wf_trainer st"
  shows "\<exists>st'. r = Inr st' \<and> wf_trainer st' \<and> vs \<le> int (length (tokens st'))
           \<and> (\<exists>n. after_rounds td n st = Inr st')"
  using train_loop_returns_aux [OF assms(1)] assms(2) by simp

lemma after_rounds_wf:
  "after_rounds td n st = Inr st' \<Longrightarrow> wf_trainer st \<Longrightarrow>
   wf_trainer st' \<and> length (tokens st) \<le> length (tokens st')"
proof (induction n arbitrary: st)
  case 0
  then show ?case by simp
next
  case (Suc n)
  from train_round_total [OF Suc.prems(2), of td] obtain st1 where
    st1: "train_round td st = Inr st1" "wf_trainer st1" "length (tokens st) \<le> length (tokens st1)"
    by blast
  with Suc.prems(1) have "after_rounds td n st1 = Inr st'" by simp
  from Suc.IH [OF this st1(2)] st1(3) show ?case by simp
qed

lemma after_rounds_total: "wf_trainer st \<Longrightarrow> \<exists>st'. after_rounds td n st = Inr st'"
proof (induction n arbitrary: st)
  case 0
  then show ?case by simp
next
  case (Suc n)
  from train_round_total [OF Suc.prems, of td] obtain st1 where
    st1: "train_round td st = Inr st1" "wf_trainer st1" by blast
  from Suc.IH [OF st1(2)] st1(1) show ?case by simp
qed

lemma train_loop_reaches_stalled:
  "after_rounds td n st = Inr st' \<Longrightarrow> wf_trainer st \<Longrightarrow> stalled vs st' \<Longrightarrow>
   train_loop td vs st = None"
proof (induction n arbitrary: st)
  case 0
  then show ?case by (simp add: train_loop_stalled)
next
  case (Suc n)
  from train_round_total [OF Suc.prems(2), of td] obtain st1 where
    st1: "train_round td st = Inr st1" "wf_trainer st1" "length (tokens st) \<le> length (tokens st1)"
    by blast
  with Suc.prems(1) have rest: "after_rounds td n st1 = Inr st'" by simp
  from after_rounds_wf [OF rest st1(2)] st1(3) Suc.prems(3)
  have "int (length (tokens st)) < vs" by (simp add: stalled_def)
  then have "train_loop td vs st = train_loop td vs st1"
    using st1(1) by (rule train_loop_step)
  with Suc.IH [OF rest st1(2) Suc.prems(3)] show ?case by simp
qed

lemma train_loop_diverges_stalled:
  "wf_trainer st \<Longrightarrow> train_loop td vs st = None \<Longrightarrow>
   \<exists>n st'. after_rounds td n st = Inr st' \<and> stalled vs st'"
proof (induction "nat (vs - int (length (tokens st)))" arbitrary: st rule: less_induct)
  case less
  have below: "int (length (tokens st)) < vs"
    using less.prems(2) train_loop_exit [of st vs td] by auto
  show ?case
  proof (cases "snd (count_ngrams (word_counts st)) = []")
    case True
    with below have "stalled vs st" by (simp add: stalled_def)
    moreover have "after_rounds td 0 st = Inr st" by simp
    ultimately show ?thesis by blast
  next
    case False
    from train_round_total [OF less.prems(1), of td] False obtain st1 where
      st1: "train_round td st = Inr st1" "wf_trainer st1" "length (tokens st) < length (tokens st1)"
      by blast
    from train_loop_step [OF below st1(1)] less.prems(2)
    have none: "train_loop td vs st1 = None" by simp
    have "nat (vs - int (length (tokens st1))) < nat (vs - int (length (tokens st)))"
      using st1(3) below by simp
    from less.hyps [OF this st1(2) none] obtain n st' where
      "after_rounds td n st1 = Inr st'" "stalled vs st'" by blast
    with st1(1) have "after_rounds td (Suc n) st = Inr st'" by simp
    with \<open>stalled vs st'\<close> show ?thesis by blast
  qed
qed

lemma init_trainer_wf: "wf_trainer (init_trainer valid text)"
  using Counter_positive [of "split text"]
  by (auto simp: wf_trainer_def init_trainer_def split_word_clean positive_def)

lemma fit_train_derived:
  "fit_train td vs None None elems text
     = train_loop td vs (init_trainer (add_marker (map (\<lambda>c. [c]) elems)) text)"
  by (simp add: fit_train_def get_symbols_def)

lemma train_loop_first_exit:
  "after_rounds td n st = Inr st' \<Longrightarrow> wf_trainer st \<Longrightarrow> vs \<le> int (length (tokens st')) \<Longrightarrow>
   \<forall>m<n. \<exists>s. after_rounds td m st = Inr s \<and> int (length (tokens s)) < vs \<Longrightarrow>
   train_loop td vs st = Some (Inr st')"
proof (induction n arbitrary: st)
  case 0
  then show ?case by (simp add: train_loop_exit)
next
  case (Suc n)
  from Suc.prems(4) have below: "int (length (tokens st)) < vs" by fastforce
  from train_round_total [OF Suc.prems(2), of td] obtain st1 where
    st1: "train_round td st = Inr st1" "wf_trainer st1" by blast
  with Suc.prems(1) have rest: "after_rounds td n st1 = Inr st'" by simp
  have "\<forall>m<n. \<exists>s. after_rounds td m st1 = Inr s \<and> int (length (tokens s)) < vs"
  proof (intro allI impI)
    fix m assume "m < n"
    then have "Suc m < Suc n" by simp
    with Suc.prems(4) obtain s where "after_rounds td (Suc m) st = Inr s" "int (length (tokens s)) < vs"
      by blast
    with st1(1) show "\<exists>s. after_rounds td m st1 = Inr s \<and> int (length (tokens s)) < vs" by simp
  qed
  from Suc.IH [OF rest st1(2) Suc.prems(3) this] train_loop_step [OF below st1(1)]
  show ?case by simp
qed

lemma train_loop_returns_first:
  assumes "train_loop td vs st = Some r" "wf_trainer st"
  shows "\<exists>n st'. r = Inr st' \<and> after_rounds td n st = Inr st' \<and> vs \<le> int (length (tokens st'))
           \<and> (\<forall>m<n. \<exists>s. after_rounds td m st = Inr s \<and> int (length (tokens s)) < vs)"
proof -
  let ?P = "\<lambda>k. \<exists>s. after_rounds td k st = Inr s \<and> vs \<le> int (length (tokens s))"
  from train_loop_returns [OF assms] have "\<exists>k. ?P k" by blast
  then have least: "?P (LEAST k. ?P k)" by (rule LeastI_ex)
  define n where "n = (LEAST k. ?P k)"
  from least obtain st' where st': "after_rounds td n st = Inr st'" "vs \<le> int (length (tokens st'))"
    unfolding n_def by blast
  have before: "\<forall>m<n. \<exists>s. after_rounds td m st = Inr s \<and> int (length (tokens s)) < vs"
  proof (intro allI impI)
    fix m assume "m < n"
    then have "\<not> ?P m" unfolding n_def by (rule not_less_Least)
    moreover from after_rounds_total [OF assms(2), of td m] obtain s where
      "after_rounds td m st = Inr s" by blast
    ultimately show "\<exists>s. after_rounds td m st = Inr s \<and> int (length (tokens s)) < vs"
      by fastforce
  qed
  from train_loop_first_exit [OF st'(1) assms(2) st'(2) before] assms(1)
  have "r = Inr st'" by simp
  with st' before show ?thesis by blast
qed

text \<open>
  Claim C3, as stated: the loop terminates for every input. For the corpus \<open>a\<close> and
  \<open>vocab_size = 4\<close> the first round merges \<open>(_, a)\<close>; then the token list has 3 entries,
  the only word is the single token \<open>_a\<close>, every further round finds no bigram and
  changes nothing, and \<open>fit\<close> does not return. The only score of the run is \<open>1/1\<close>.
\<close>

theorem training_stalls_counterexample:
  "fit exact_div 4 None None ''a'' ''a'' = None"
proof -
  have r: "after_rounds exact_div 1 (init_trainer (add_marker (map (\<lambda>c. [c]) ''a'')) ''a'')
             = Inr \<lparr>tokens = [''a'', ''_'', ''_a''], history = [(''_'', ''a'')],
                    word_counts = [\<lparr>word = [''_a''], count = 1\<rparr>]\<rparr>"
    by code_simp
  have s: "stalled 4 \<lparr>tokens = [''a'', ''_'', ''_a''], history = [(''_'', ''a'')],
                    word_counts = [\<lparr>word = [''_a''], count = 1\<rparr>]\<rparr>"
    by code_simp
  from train_loop_reaches_stalled [OF r init_trainer_wf s]
  show ?thesis by (simp add: fit_def fit_train_derived)
qed

text \<open>
  Claim C3, amended: \<open>fit\<close> (with derived symbols) runs a round only while the token list
  is shorter than \<open>vocab_size\<close>: it returns exactly the state after the first number of
  rounds at which the token list has at least \<open>vocab_size\<close> entries, every state before
  it being shorter (so it runs no round when the symbols already are that many, and none
  after the target is reached), and it ends without an error. There is no check for a
  round without accepted merges: the loop runs forever exactly when some number of rounds
  leads to a state below the target in which no word has two neighbouring tokens; the
  round of such a state returns the state unchanged and raises nothing.
\<close>

theorem training_loop_termination:
  "(fit_train td vs None None elems text = None)
     = (\<exists>n st. after_rounds td n (init_trainer (add_marker (map (\<lambda>c. [c]) elems)) text) = Inr st
              \<and> stalled vs st)
   \<and> (\<forall>n st. after_rounds td n (init_trainer (add_marker (map (\<lambda>c. [c]) elems)) text) = Inr st
              \<and> stalled vs st \<longrightarrow> train_round td st = Inr st)
   \<and> (\<forall>r. fit_train td vs None None elems text = Some r \<longrightarrow>
          (\<exists>st. r = Inr st \<and> vs \<le> int (length (tokens st))))
   \<and> (vs \<le> int (length (tokens (init_trainer (add_marker (map (\<lambda>c. [c]) elems)) text))) \<longrightarrow>
        fit_train td vs None None elems text
          = Some (Inr (init_trainer (add_marker (map (\<lambda>c. [c]) elems)) text)))
   \<and> (\<forall>r. (fit_train td vs None None elems text = Some r)
          = (\<exists>n st. r = Inr st
                \<and> after_rounds td n (init_trainer (add_marker (map (\<lambda>c. [c]) elems)) text) = Inr st
                \<and> vs \<le> int (length (tokens st))
                \<and> (\<forall>m<n. \<exists>s. after_rounds td m (init_trainer (add_marker (map (\<lambda>c. [c]) elems)) text)
                                 = Inr s
                              \<and> int (length (tokens s)) < vs)))"
proof (intro conjI allI impI)
  let ?init = "init_trainer (add_marker (map (\<lambda>c. [c]) elems)) text"
  show "(fit_train td vs None None elems text = None)
     = (\<exists>n st. after_rounds td n ?init = Inr st \<and> stalled vs st)"
    unfolding fit_train_derived
    using train_loop_diverges_stalled [OF init_trainer_wf, of td vs]
      train_loop_reaches_stalled [OF _ init_trainer_wf, of td _ _ _ _ vs]
    by blast
next
  fix n st
  let ?init = "init_trainer (add_marker (map (\<lambda>c. [c]) elems)) text"
  assume a: "after_rounds td n ?init = Inr st \<and> stalled vs st"
  with after_rounds_wf [OF _ init_trainer_wf] have "wf_trainer st" by blast
  with a show "train_round td st = Inr st"
    by (simp add: train_round_stalled stalled_def)
next
  fix r
  assume "fit_train td vs None None elems text = Some r"
  then have "train_loop td vs (init_trainer (add_marker (map (\<lambda>c. [c]) elems)) text) = Some r"
    by (simp add: fit_train_derived)
  from train_loop_returns [OF this init_trainer_wf]
  show "\<exists>st. r = Inr st \<and> vs \<le> int (length (tokens st))" by blast
next
  assume "vs \<le> int (length (tokens (init_trainer (add_marker (map (\<lambda>c. [c]) elems)) text)))"
  then show "fit_train td vs None None elems text
          = Some (Inr (init_trainer (add_marker (map (\<lambda>c. [c]) elems)) text))"
    by (simp add: fit_train_derived train_loop_exit)
next
  fix r
  let ?init = "init_trainer (add_marker (map (\<lambda>c. [c]) elems)) text"
  show "(fit_train td vs None None elems text = Some r)
          = (\<exists>n st. r = Inr st \<and> after_rounds td n ?init = Inr st
                \<and> vs \<le> int (length (tokens st))
                \<and> (\<forall>m<n. \<exists>s. after_rounds td m ?init = Inr s \<and> int (length (tokens s)) < vs))"
    unfolding fit_train_derived
    using train_loop_returns_first [OF _ init_trainer_wf, of td vs]
      train_loop_first_exit [OF _ init_trainer_wf, of td _ _ _ _ vs]
    by blast
qed

theorem training_loop_termination_witness:
  "after_rounds exact_div 2 (init_trainer (add_marker (map (\<lambda>c. [c]) ''ab'')) ''ab'')
     = Inr \<lparr>tokens = [''a'', ''b'', ''_'', ''_a'', ''_ab''],
            history = [(''_'', ''a''), (''_a'', ''b'')],
            word_counts = [\<lparr>word = [''_ab''], count = 1\<rparr>]\<rparr>
   \<and> stalled 6 \<lparr>tokens = [''a'', ''b'', ''_'', ''_a'', ''_ab''],
            history = [(''_'', ''a''), (''_a'', ''b'')],
            word_counts = [\<lparr>word = [''_ab''], count = 1\<rparr>]\<rparr>
   \<and> train_round exact_div \<lparr>tokens = [''a'', ''b'', ''_'', ''_a'', ''_ab''],
            history = [(''_'', ''a''), (''_a'', ''b'')],
            word_counts = [\<lparr>word = [''_ab''], count = 1\<rparr>]\<rparr>
       = Inr \<lparr>tokens = [''a'', ''b'', ''_'', ''_a'', ''_ab''],
            history = [(''_'', ''a''), (''_a'', ''b'')],
            word_counts = [\<lparr>word = [''_ab''], count = 1\<rparr>]\<rparr>
   \<and> fit_train exact_div 6 None None ''ab'' ''ab'' = None
   \<and> after_rounds exact_div 1 (init_trainer (add_marker (map (\<lambda>c. [c]) ''ab'')) ''ab'')
     = Inr \<lparr>tokens = [''a'', ''b'', ''_'', ''_a''], history = [(''_'', ''a'')],
            word_counts = [\<lparr>word = [''_a'', ''b''], count = 1\<rparr>]\<rparr>
   \<and> int (length (tokens (init_trainer (add_marker (map (\<lambda>c. [c]) ''ab'')) ''ab''))) < 4
   \<and> fit_train exact_div 4 None None ''ab'' ''ab''
     = Some (Inr \<lparr>tokens = [''a'', ''b'', ''_'', ''_a''], history = [(''_'', ''a'')],
                  word_counts = [\<lparr>word = [''_a'', ''b''], count = 1\<rparr>]\<rparr>)"
proof -
  let ?init = "init_trainer (add_marker (map (\<lambda>c. [c]) ''ab'')) ''ab''"
  let ?st = "\<lparr>tokens = [''a'', ''b'', ''_'', ''_a'', ''_ab''],
            history = [(''_'', ''a''), (''_a'', ''b'')],
            word_counts = [\<lparr>word = [''_ab''], count = 1\<rparr>]\<rparr>"
  let ?st1 = "\<lparr>tokens = [''a'', ''b'', ''_'', ''_a''], history = [(''_'', ''a'')],
            word_counts = [\<lparr>word = [''_a'', ''b''], count = 1\<rparr>]\<rparr>"
  have r: "after_rounds exact_div 2 ?init = Inr ?st"
    by code_simp
  have s: "stalled 6 ?st" by code_simp
  have r1: "after_rounds exact_div 1 ?init = Inr ?st1"
    by code_simp
  have below: "int (length (tokens ?init)) < 4"
    by (simp add: init_trainer_def add_marker_def)
  have reached: "(4 :: int) \<le> int (length (tokens ?st1))" by simp
  have before: "\<forall>m<1. \<exists>s. after_rounds exact_div m ?init = Inr s \<and> int (length (tokens s)) < 4"
    using below by simp
  note inst6 = training_loop_termination [of exact_div 6 "''ab''" "''ab''"]
  note inst4 = training_loop_termination [of exact_div 4 "''ab''" "''ab''"]
  from inst6 r s
  have "fit_train exact_div 6 None None ''ab'' ''ab'' = None"
    and "train_round exact_div ?st = Inr ?st"
    by blast+
  moreover from inst4 r1 reached before
  have "fit_train exact_div 4 None None ''ab'' ''ab'' = Some (Inr ?st1)"
    by blast
  ultimately show ?thesis using r s r1 below by blast
qed

subsection \<open>The token list that \<open>fit\<close> returns\<close>

lemma prepend_if_absent_props:
  "length ts \<le> length (prepend_if_absent t ts)"
  "set (prepend_if_absent t ts) = insert t (set ts)"
  by (auto simp: prepend_if_absent_def)

lemma finalize_length: "length ts \<le> length (finalize ts)"
  unfolding finalize_def
  by (meson prepend_if_absent_props(1) order_trans)

lemma finalize_set: "set (finalize ts) = set reserved_tokens \<union> set ts"
  by (auto simp: finalize_def prepend_if_absent_props(2) reserved_tokens_def)

lemma finalize_fresh:
  "set ts \<inter> set reserved_tokens = {} \<Longrightarrow> finalize ts = reserved_tokens @ ts"
  by (simp add: finalize_def prepend_if_absent_def reserved_tokens_def)

lemma replace_notin:
  "c \<notin> set s \<Longrightarrow> c \<notin> set new \<Longrightarrow> c \<notin> set (replace old new s)"
proof (induction old new s rule: replace.induct)
  case (1 old new s)
  show ?case
  proof (cases "old = []")
    case True
    with "1.prems" show ?thesis by (subst replace.simps) auto
  next
    case False
    show ?thesis
    proof (cases s)
      case Nil
      with False show ?thesis by (subst replace.simps) simp
    next
      case (Cons x cs)
      show ?thesis
      proof (cases "take (length old) s = old")
        case True
        have "c \<notin> set (drop (length old) s)"
          using "1.prems"(1) by (auto dest: in_set_dropD)
        from "1.IH"(1) [OF False Cons True this "1.prems"(2)] "1.prems"(2) False Cons True
        show ?thesis by (subst replace.simps) simp
      next
        case nt: False
        have "c \<notin> set cs" using "1.prems"(1) Cons by simp
        from "1.IH"(2) [OF False Cons nt this "1.prems"(2)] "1.prems"(1) False Cons nt
        show ?thesis by (subst replace.simps) simp
      qed
    qed
  qed
qed

lemma replace_absent: "c \<in> set old \<Longrightarrow> c \<notin> set s \<Longrightarrow> replace old new s = s"
proof (induction s)
  case Nil
  then show ?case by (subst replace.simps) auto
next
  case (Cons x cs)
  have "take (length old) (x # cs) \<noteq> old"
  proof
    assume "take (length old) (x # cs) = old"
    then have "set old \<subseteq> set (x # cs)" by (metis set_take_subset)
    with Cons.prems show False by auto
  qed
  moreover have "old \<noteq> []" using Cons.prems(1) by auto
  moreover have "replace old new cs = cs" using Cons by simp
  ultimately show ?case by (subst replace.simps) simp
qed

lemma split_loop_chars:
  "t \<in> set (split_loop cur s) \<Longrightarrow> set t \<subseteq> set cur \<union> set s"
proof (induction s arbitrary: cur)
  case Nil
  then show ?case by (auto split: if_splits)
next
  case (Cons a s)
  show ?case
  proof (cases "is_space a")
    case True
    with Cons.prems have "t = cur \<or> t \<in> set (split_loop [] s)" by (auto split: if_splits)
    with Cons.IH [of "[]"] show ?thesis by auto
  next
    case False
    with Cons.prems have "t \<in> set (split_loop (cur @ [a]) s)" by simp
    from Cons.IH [OF this] show ?thesis by auto
  qed
qed

lemma split_chars: "t \<in> set (split s) \<Longrightarrow> set t \<subseteq> set s"
  using split_loop_chars [of t "[]" s] by (simp add: split_def)

lemma join_chars: "set (join w) \<subseteq> insert CHR '' '' (\<Union>t\<in>set w. set t)"
  by (induction w rule: join.induct) auto

lemma merge_chars:
  assumes "c \<noteq> CHR '' ''" "\<forall>t\<in>set w. c \<notin> set t"
      and "\<forall>b\<in>set merges. c \<notin> set (fst b) \<and> c \<notin> set (snd b)"
  shows "\<forall>t\<in>set (merge_bigrams_in_word w merges). c \<notin> set t"
proof -
  have j: "c \<notin> set (join w)" using join_chars [of w] assms(1,2) by auto
  have "c \<notin> set s \<Longrightarrow> c \<notin> set (fold (\<lambda>bigram s. replace (fst bigram @ '' '' @ snd bigram)
                                      (fst bigram @ snd bigram) s) merges s)" for s
    using assms(3)
  proof (induction merges arbitrary: s)
    case Nil
    then show ?case by simp
  next
    case (Cons b merges)
    have "c \<notin> set (replace (fst b @ '' '' @ snd b) (fst b @ snd b) s)"
      using Cons.prems by (intro replace_notin) auto
    from Cons.IH [OF this] Cons.prems(2) show ?case by simp
  qed
  from this [OF j] show ?thesis
    unfolding merge_bigrams_in_word_def by (auto dest: split_chars)
qed

lemma train_round_Inr:
  assumes "train_round td st = Inr st'"
  shows "\<exists>ms merges new.
           bigram_scores td (fst (count_ngrams (word_counts st))) (snd (count_ngrams (word_counts st))) = Inr ms
         \<and> get_independed_bigrams (sort_reverse ms) = (merges, new)
         \<and> st' = \<lparr>tokens = tokens st @ new, history = history st @ merges,
                  word_counts = map (\<lambda>element. element\<lparr>word := merge_bigrams_in_word (word element) merges\<rparr>)
                                    (word_counts st)\<rparr>"
  using assms by (auto simp: train_round_def split: prod.splits sum.splits)

lemma train_round_merges:
  assumes "train_round td st = Inr st'"
  shows "\<exists>merges. tokens st' = tokens st @ map (\<lambda>b. fst b @ snd b) merges
         \<and> history st' = history st @ merges
         \<and> word_counts st' = map (\<lambda>element. element\<lparr>word := merge_bigrams_in_word (word element) merges\<rparr>)
                                    (word_counts st)
         \<and> set merges \<subseteq> (\<Union>wc\<in>set (word_counts st). set (bigrams (word wc)))"
proof -
  from train_round_Inr [OF assms] obtain ms merges new where
    r: "bigram_scores td (fst (count_ngrams (word_counts st))) (snd (count_ngrams (word_counts st))) = Inr ms"
       "get_independed_bigrams (sort_reverse ms) = (merges, new)"
       "st' = \<lparr>tokens = tokens st @ new, history = history st @ merges,
                  word_counts = map (\<lambda>element. element\<lparr>word := merge_bigrams_in_word (word element) merges\<rparr>)
                                    (word_counts st)\<rparr>"
    by blast
  from bigram_scores_keys [OF r(1)]
  have "fst ` set ms = fst ` set (snd (count_ngrams (word_counts st)))"
    by (metis set_map)
  also have "\<dots> = (\<Union>wc\<in>set (word_counts st). set (bigrams (word wc)))"
    using count_ngrams_keys [of "word_counts st"] by (cases "count_ngrams (word_counts st)") simp
  finally have "set merges \<subseteq> (\<Union>wc\<in>set (word_counts st). set (bigrams (word wc)))"
    using get_independed_props(2) [OF r(2)] by (simp add: sort_reverse_set)
  with r(3) get_independed_props(1) [OF r(2)] show ?thesis by simp
qed

lemma train_round_char_free:
  assumes "train_round td st = Inr st'" "char_free c st" "c \<noteq> CHR '' ''"
  shows "char_free c st'"
proof -
  from train_round_merges [OF assms(1)] obtain merges where
    m: "tokens st' = tokens st @ map (\<lambda>b. fst b @ snd b) merges"
       "word_counts st' = map (\<lambda>element. element\<lparr>word := merge_bigrams_in_word (word element) merges\<rparr>)
                                    (word_counts st)"
       "set merges \<subseteq> (\<Union>wc\<in>set (word_counts st). set (bigrams (word wc)))"
    by blast
  have mf: "\<forall>b\<in>set merges. c \<notin> set (fst b) \<and> c \<notin> set (snd b)"
  proof
    fix b assume "b \<in> set merges"
    with m(3) obtain wc where wc: "wc \<in> set (word_counts st)" "b \<in> set (bigrams (word wc))" by auto
    with bigrams_subset [of "word wc"] have "fst b \<in> set (word wc)" "snd b \<in> set (word wc)"
      by (auto simp: mem_Times_iff)
    with wc(1) assms(2) show "c \<notin> set (fst b) \<and> c \<notin> set (snd b)"
      by (simp add: char_free_def)
  qed
  have "\<forall>t\<in>set (tokens st'). c \<notin> set t"
    using m(1) mf assms(2) by (auto simp: char_free_def)
  moreover have "\<forall>wc\<in>set (word_counts st'). \<forall>t\<in>set (word wc). c \<notin> set t"
  proof
    fix wc assume "wc \<in> set (word_counts st')"
    with m(2) obtain wc0 where wc0: "wc0 \<in> set (word_counts st)"
      "word wc = merge_bigrams_in_word (word wc0) merges" by auto
    from wc0(1) assms(2) have "\<forall>t\<in>set (word wc0). c \<notin> set t" by (simp add: char_free_def)
    from merge_chars [OF assms(3) this mf] wc0(2) show "\<forall>t\<in>set (word wc). c \<notin> set t" by simp
  qed
  ultimately show ?thesis by (simp add: char_free_def)
qed

lemma after_rounds_char_free:
  "after_rounds td n st = Inr st' \<Longrightarrow> char_free c st \<Longrightarrow> c \<noteq> CHR '' '' \<Longrightarrow> char_free c st'"
proof (induction n arbitrary: st)
  case 0
  then show ?case by simp
next
  case (Suc n)
  from Suc.prems(1) obtain st1 where
    st1: "train_round td st = Inr st1" "after_rounds td n st1 = Inr st'"
    by (auto split: sum.splits)
  from Suc.IH [OF st1(2) train_round_char_free [OF st1(1) Suc.prems(2,3)] Suc.prems(3)]
  show ?case .
qed

lemma split_word_char_free:
  assumes "CHR ''<'' \<notin> set w"
  shows "\<forall>t\<in>set (split_word w). CHR ''<'' \<notin> set t"
proof -
  let ?j = "join (map (\<lambda>c. [c]) w)"
  have j: "CHR ''<'' \<notin> set ?j" using join_chars [of "map (\<lambda>c. [c]) w"] assms by auto
  then have "replace ''< u n k >'' ''<unk>'' ?j = ?j"
    by (intro replace_absent [of "CHR ''<''"]) simp_all
  with j show ?thesis
    by (auto simp: split_word_def dest: split_chars)
qed

lemma init_trainer_char_free:
  assumes "set elems \<subseteq> set text" "CHR ''<'' \<notin> set text"
  shows "char_free CHR ''<'' (init_trainer (add_marker (map (\<lambda>c. [c]) elems)) text)"
proof -
  have "\<forall>t\<in>set (add_marker (map (\<lambda>c. [c]) elems)). CHR ''<'' \<notin> set t"
    using assms by (auto simp: add_marker_def)
  moreover have "\<forall>w\<in>fst ` set (Counter (split text)). CHR ''<'' \<notin> set w"
    using assms(2) by (auto simp: Counter_keys dest: split_chars)
  then have "\<forall>wc\<in>set (Counter (split text)). \<forall>t\<in>set (split_word (fst wc)). CHR ''<'' \<notin> set t"
    using split_word_char_free by auto
  ultimately show ?thesis by (simp add: char_free_def init_trainer_def)
qed

lemma char_free_reserved:
  "char_free CHR ''<'' st \<Longrightarrow> set (tokens st) \<inter> set reserved_tokens = {}"
  by (auto simp: char_free_def reserved_tokens_def)

text \<open>
  Claim C1, as stated: the first five entries of the result are always
  \<open><pad>, <cls>, <sep>, <mask>, <unk>\<close>. For the corpus \<open>x<pad> x\<close> and \<open>vocab_size = 12\<close>
  the rounds merge \<open>(<, p)\<close>, \<open>(<p, a)\<close>, \<open>(<pa, d)\<close> and \<open>(<pad, >)\<close>, so \<open><pad>\<close> is a
  trained token; it is then present, is not inserted at the front, and index 0 holds
  \<open><cls>\<close>. The scores of this run are \<open>1\<close> and \<open>1/2\<close>.
\<close>

theorem fit_reserved_counterexample:
  "set ''x<pad> '' = set ''x<pad> x'' \<and> distinct ''x<pad> ''
   \<and> fit exact_div 12 None None ''x<pad> '' ''x<pad> x''
       = Some (Inr [''<cls>'', ''<sep>'', ''<mask>'', ''<unk>'', ''x'', ''<'', ''p'', ''a'', ''d'',
                    ''>'', '' '', ''_'', ''<p'', ''<pa'', ''<pad'', ''<pad>'', ''_x''])
   \<and> take 5 [''<cls>'', ''<sep>'', ''<mask>'', ''<unk>'', ''x'', ''<'', ''p'', ''a'', ''d'',
              ''>'', '' '', ''_'', ''<p'', ''<pa'', ''<pad'', ''<pad>'', ''_x'']
       \<noteq> [''<pad>'', ''<cls>'', ''<sep>'', ''<mask>'', ''<unk>'']"
  by code_simp

text \<open>
  Claim C1, amended: when \<open>fit\<close> returns, the token list has at least \<open>vocab_size\<close>
  entries, contains the five reserved tokens, and is the trained token list with the
  reserved tokens that it lacks inserted at the front in the order \<open><unk>\<close>, \<open><mask>\<close>,
  \<open><sep>\<close>, \<open><cls>\<close>, \<open><pad>\<close>. When no reserved token is a trained token, the list is
  \<open><pad>, <cls>, <sep>, <mask>, <unk>\<close> followed by the trained tokens; this is so for
  every corpus without the character \<open><\<close>.
\<close>

theorem fit_result:
  assumes "fit td vs valid ms elems text = Some (Inr toks)"
  shows "vs \<le> int (length toks)
       \<and> set reserved_tokens \<subseteq> set toks
       \<and> (\<exists>st. fit_train td vs valid ms elems text = Some (Inr st) \<and> toks = finalize (tokens st)
              \<and> (set (tokens st) \<inter> set reserved_tokens = {} \<longrightarrow> toks = reserved_tokens @ tokens st))
       \<and> (set elems \<subseteq> set text \<and> CHR ''<'' \<notin> set text \<longrightarrow> take 5 toks = reserved_tokens)"
proof -
  from assms obtain st where st: "fit_train td vs valid ms elems text = Some (Inr st)"
    "toks = finalize (tokens st)"
    by (auto simp: fit_def split: option.splits sum.splits)
  have derived: "valid = None" "ms = None"
    using st(1) by (auto simp: fit_train_def get_symbols_def most_common_on_class_def
        split: option.splits)
  let ?init = "init_trainer (add_marker (map (\<lambda>c. [c]) elems)) text"
  from st(1) derived have loop: "train_loop td vs ?init = Some (Inr st)"
    by (simp add: fit_train_derived)
  from train_loop_returns [OF loop init_trainer_wf] obtain n where
    big: "vs \<le> int (length (tokens st))" and n: "after_rounds td n ?init = Inr st"
    by auto
  have "vs \<le> int (length toks)"
    using big finalize_length [of "tokens st"] st(2) by simp
  moreover have "set reserved_tokens \<subseteq> set toks"
    using st(2) by (simp add: finalize_set)
  moreover have "set (tokens st) \<inter> set reserved_tokens = {} \<longrightarrow> toks = reserved_tokens @ tokens st"
    using st(2) by (simp add: finalize_fresh)
  moreover have "set elems \<subseteq> set text \<and> CHR ''<'' \<notin> set text \<longrightarrow> take 5 toks = reserved_tokens"
  proof
    assume a: "set elems \<subseteq> set text \<and> CHR ''<'' \<notin> set text"
    then have "char_free CHR ''<'' ?init" by (simp add: init_trainer_char_free)
    from after_rounds_char_free [OF n this] have "char_free CHR ''<'' st" by simp
    then have "toks = reserved_tokens @ tokens st"
      using st(2) by (simp add: finalize_fresh char_free_reserved)
    then show "take 5 toks = reserved_tokens" by (simp add: reserved_tokens_def)
  qed
  ultimately show ?thesis using st by blast
qed

theorem fit_result_witness:
  "fit exact_div 3 None None ''a'' ''a''
     = Some (Inr [''<pad>'', ''<cls>'', ''<sep>'', ''<mask>'', ''<unk>'', ''a'', ''_'', ''_a''])
   \<and> set ''a'' \<subseteq> set ''a'' \<and> CHR ''<'' \<notin> set ''a''
   \<and> (3 :: int) \<le> int (length [''<pad>'', ''<cls>'', ''<sep>'', ''<mask>'', ''<unk>'', ''a'', ''_'', ''_a''])
   \<and> take 5 [''<pad>'', ''<cls>'', ''<sep>'', ''<mask>'', ''<unk>'', ''a'', ''_'', ''_a''] = reserved_tokens"
proof -
  have run: "fit exact_div 3 None None ''a'' ''a''
     = Some (Inr [''<pad>'', ''<cls>'', ''<sep>'', ''<mask>'', ''<unk>'', ''a'', ''_'', ''_a''])"
    by code_simp
  have h: "set ''a'' \<subseteq> set ''a''" "CHR ''<'' \<notin> set ''a''" by simp_all
  from fit_result [OF run] h run show ?thesis by blast
qed

section \<open>Encoding with a trained vocabulary\<close>

lemma fold_update_dom:
  "dom (fold (\<lambda>item d. d(snd item \<mapsto> int (fst item))) ps d) = dom d \<union> snd ` set ps"
  by (induction ps arbitrary: d) auto

lemma fold_update_good:
  "\<forall>t i. d t = Some i \<longrightarrow> P i t \<Longrightarrow> \<forall>item\<in>set ps. P (int (fst item)) (snd item) \<Longrightarrow>
   fold (\<lambda>item d. d(snd item \<mapsto> int (fst item))) ps d t = Some i \<Longrightarrow> P i t"
proof (induction ps arbitrary: d)
  case Nil
  then show ?case by simp
next
  case (Cons item ps)
  have "\<forall>t i. (d(snd item \<mapsto> int (fst item))) t = Some i \<longrightarrow> P i t"
    using Cons.prems(1,2) by auto
  moreover have "\<forall>item\<in>set ps. P (int (fst item)) (snd item)"
    using Cons.prems(2) by simp
  moreover have "fold (\<lambda>item d. d(snd item \<mapsto> int (fst item))) ps
                   (d(snd item \<mapsto> int (fst item))) t = Some i"
    using Cons.prems(3) by (simp only: fold_simps)
  ultimately show ?case by (rule Cons.IH)
qed

lemma token2idx_of_dom: "dom (token2idx_of ts) = set ts"
proof -
  have "snd ` set (enumerate 0 ts) = set (map snd (enumerate 0 ts))" by (simp only: set_map)
  then show ?thesis by (simp add: token2idx_of_def fold_update_dom)
qed

lemma token2idx_of_consistent:
  assumes "t \<in> set ts"
  shows "\<exists>i. token2idx_of ts t = Some i \<and> getitem ts i = Inr t"
proof -
  from assms token2idx_of_dom [of ts] obtain i where i: "token2idx_of ts t = Some i" by auto
  have "\<forall>item\<in>set (enumerate 0 ts). getitem ts (int (fst item)) = Inr (snd item)"
    by (auto simp: in_set_enumerate_eq getitem_def)
  from fold_update_good [where P = "\<lambda>i t. getitem ts i = Inr t", OF _ this i [unfolded token2idx_of_def]]
  have "getitem ts i = Inr t" by simp
  with i show ?thesis by blast
qed

lemma tokenize_word_greedy_unknown:
  "greedy_tokens vocab w ts \<Longrightarrow> length (concat ts) < length w \<Longrightarrow>
   \<forall>n. length (concat ts) < n \<and> n \<le> length w \<longrightarrow> slice w (length (concat ts)) n \<notin> set vocab \<Longrightarrow>
   tokenize_word vocab w = ts @ [''<unk>'']"
proof (induction ts arbitrary: w)
  case Nil
  then have "w \<noteq> []" "\<forall>n. 0 < n \<and> n \<le> length w \<longrightarrow> take n w \<notin> set vocab"
    by (auto simp: slice_0)
  from tokenize_word_no_match [OF this] show ?case by simp
next
  case (Cons t ts)
  let ?m = "length t"
  have g: "t \<noteq> [] \<and> take ?m w = t \<and> t \<in> set vocab
      \<and> (\<forall>n\<in>set [Suc ?m..<Suc (length w)]. take n w \<notin> set vocab)
      \<and> greedy_tokens vocab (drop ?m w) ts"
    using Cons.prems(1) [unfolded greedy_tokens.simps] .
  have longest: "\<forall>n. ?m < n \<and> n \<le> length w \<longrightarrow> take n w \<notin> set vocab"
  proof (intro allI impI)
    fix n assume "?m < n \<and> n \<le> length w"
    then have "n \<in> set [Suc ?m..<Suc (length w)]" by (simp del: upt_Suc)
    with g show "take n w \<notin> set vocab" by blast
  qed
  from g longest have t: "t \<noteq> []" "take ?m w = t" "t \<in> set vocab"
    "\<forall>n. ?m < n \<and> n \<le> length w \<longrightarrow> take n w \<notin> set vocab"
    "greedy_tokens vocab (drop ?m w) ts"
    by blast+
  have m: "0 < ?m" "?m \<le> length w" "take ?m w \<in> set vocab"
    using t(1,2,3) Cons.prems(2) by auto
  have first: "tokenize_word vocab w = t # tokenize_word vocab (drop ?m w)"
    using tokenize_word_longest [OF m t(4)] t(2) by simp
  have len: "length (concat ts) < length (drop ?m w)"
    using Cons.prems(2) by simp
  have "\<forall>n. length (concat ts) < n \<and> n \<le> length (drop ?m w) \<longrightarrow>
          slice (drop ?m w) (length (concat ts)) n \<notin> set vocab"
  proof (intro allI impI)
    fix n assume n: "length (concat ts) < n \<and> n \<le> length (drop ?m w)"
    then have "length (concat (t # ts)) < ?m + n \<and> ?m + n \<le> length w" by auto
    with Cons.prems(3) have "slice w (length (concat (t # ts))) (?m + n) \<notin> set vocab" by blast
    then show "slice (drop ?m w) (length (concat ts)) n \<notin> set vocab"
      by (simp add: slice_drop)
  qed
  from Cons.IH [OF t(5) len this] first show ?case by simp
qed

text \<open>
  Claim C8: let the tokens \<open>matched\<close> be the greedy segmentation of a proper beginning of
  the word, and let no slice of the word that starts where they end be in the vocabulary
  (the window shrinks to empty there). Then \<open>_tokenize_word\<close> returns these tokens followed
  by one \<open><unk>\<close>, and nothing for the characters that are left. Seen from the loop: when
  it ends at a position \<open>k\<close> before the end of the word, its window is empty there, no
  slice that starts at \<open>k\<close> is in the vocabulary, and the result is the tokens matched so
  far, which spell the first \<open>k\<close> characters, followed by one \<open><unk>\<close>. And \<open>encode\<close>
  returns a list of indices for every text, for a tokenizer whose \<open>token2idx\<close> has every
  token of \<open>idx2token\<close> and \<open><unk>\<close> as a key; the token list that \<open>fit\<close> returns, with the
  dictionary \<open>fit\<close> builds from it, is such a tokenizer.
\<close>

theorem unknown_fallback:
  "(greedy_tokens vocab w matched \<and> length (concat matched) < length w
      \<and> (\<forall>n. length (concat matched) < n \<and> n \<le> length w \<longrightarrow>
             slice w (length (concat matched)) n \<notin> set vocab) \<longrightarrow>
       tokenize_word vocab w = matched @ [''<unk>''])
   \<and> (tokenize_loop vocab w 0 (length w) [] = (k, e, ts) \<and> k < length w \<longrightarrow>
       e = k \<and> tokenize_word vocab w = ts @ [''<unk>''] \<and> set ts \<subseteq> set vocab
     \<and> concat ts = take k w
     \<and> (\<forall>n. k < n \<and> n \<le> length w \<longrightarrow> slice w k n \<notin> set vocab))
   \<and> (set (idx2token tk) \<subseteq> dom (token2idx tk) \<and> ''<unk>'' \<in> dom (token2idx tk) \<longrightarrow>
       (\<exists>ids. encode tk text = Inr ids))
   \<and> (fit true_div vocab_size given max_symbols elems corpus = Some (Inr toks) \<longrightarrow>
       (\<exists>ids. encode \<lparr>valid_symbols = symbols, idx2token = toks, token2idx = token2idx_of toks\<rparr> text
                = Inr ids))"
proof (intro conjI impI)
  assume "greedy_tokens vocab w matched \<and> length (concat matched) < length w
      \<and> (\<forall>n. length (concat matched) < n \<and> n \<le> length w \<longrightarrow>
             slice w (length (concat matched)) n \<notin> set vocab)"
  then show "tokenize_word vocab w = matched @ [''<unk>'']"
    by (intro tokenize_word_greedy_unknown) simp_all
next
  assume a: "tokenize_loop vocab w 0 (length w) [] = (k, e, ts) \<and> k < length w"
  from tokenize_loop_result [of vocab w k e ts] a
  have r: "concat ts = take k w" "set ts \<subseteq> set vocab" "e = k" "no_match vocab w k k (length w)"
    by simp_all
  show "e = k" by (rule r(3))
  show "tokenize_word vocab w = ts @ [''<unk>'']" using a by (simp add: tokenize_word_def)
  show "set ts \<subseteq> set vocab" by (rule r(2))
  show "concat ts = take k w" by (rule r(1))
  show "\<forall>n. k < n \<and> n \<le> length w \<longrightarrow> slice w k n \<notin> set vocab"
    using r(4) by (simp add: no_match_def)
next
  assume a: "set (idx2token tk) \<subseteq> dom (token2idx tk) \<and> ''<unk>'' \<in> dom (token2idx tk)"
  show "\<exists>ids. encode tk text = Inr ids"
    using a by (rule encode_total)
next
  assume "fit true_div vocab_size given max_symbols elems corpus = Some (Inr toks)"
  then obtain st :: trainer where "toks = finalize (tokens st)"
    by (auto simp: fit_def split: option.splits sum.splits)
  then have "''<unk>'' \<in> set toks"
    by (simp add: finalize_set reserved_tokens_def)
  then show "\<exists>ids. encode \<lparr>valid_symbols = symbols, idx2token = toks, token2idx = token2idx_of toks\<rparr> text
                = Inr ids"
    by (intro encode_total) (simp add: token2idx_of_dom)
qed

theorem unknown_fallback_witness:
  "greedy_tokens (idx2token example_tokenizer) ''_ab'' [''_a'']
   \<and> length (concat [''_a'']) < length ''_ab''
   \<and> slice ''_ab'' (length (concat [''_a''])) 3 \<notin> set (idx2token example_tokenizer)
   \<and> tokenize_word (idx2token example_tokenizer) ''_ab'' = [''_a''] @ [''<unk>'']
   \<and> tokenize_loop (idx2token example_tokenizer) ''_ab'' 0 (length ''_ab'') [] = (2, 2, [''_a''])
   \<and> (2 :: nat) < length ''_ab''
   \<and> set (idx2token example_tokenizer) \<subseteq> dom (token2idx example_tokenizer)
   \<and> ''<unk>'' \<in> dom (token2idx example_tokenizer)
   \<and> (\<exists>ids. encode example_tokenizer ''ab b'' = Inr ids)
   \<and> encode example_tokenizer ''ab b'' = Inr [7, 4, 6, 4]
   \<and> fit exact_div 3 None None ''a'' ''a''
        = Some (Inr [''<pad>'', ''<cls>'', ''<sep>'', ''<mask>'', ''<unk>'', ''a'', ''_'', ''_a''])
   \<and> (\<exists>ids. encode \<lparr>valid_symbols = [''a'', ''_''],
                      idx2token = [''<pad>'', ''<cls>'', ''<sep>'', ''<mask>'', ''<unk>'', ''a'', ''_'', ''_a''],
                      token2idx = token2idx_of [''<pad>'', ''<cls>'', ''<sep>'', ''<mask>'', ''<unk>'',
                                                ''a'', ''_'', ''_a'']\<rparr> ''ab b'' = Inr ids)"
proof -
  have greedy: "greedy_tokens (idx2token example_tokenizer) ''_ab'' [''_a'']"
    by code_simp
  have short: "length (concat [''_a'']) < length ''_ab''" by simp
  have last: "slice ''_ab'' (length (concat [''_a''])) 3 \<notin> set (idx2token example_tokenizer)"
    by code_simp
  have rest: "\<forall>n. length (concat [''_a'']) < n \<and> n \<le> length ''_ab'' \<longrightarrow>
                slice ''_ab'' (length (concat [''_a''])) n \<notin> set (idx2token example_tokenizer)"
  proof (intro allI impI)
    fix n :: nat assume "length (concat [''_a'']) < n \<and> n \<le> length ''_ab''"
    then have "n = 3" by simp
    with last show "slice ''_ab'' (length (concat [''_a''])) n \<notin> set (idx2token example_tokenizer)"
      by simp
  qed
  have run: "tokenize_loop (idx2token example_tokenizer) ''_ab'' 0 (length ''_ab'') [] = (2, 2, [''_a''])"
    by code_simp
  have lt: "(2 :: nat) < length ''_ab''" by simp
  have dom: "set (idx2token example_tokenizer) \<subseteq> dom (token2idx example_tokenizer)"
    by (simp add: example_tokenizer_def)
  have unk: "''<unk>'' \<in> dom (token2idx example_tokenizer)"
    by (simp add: example_tokenizer_def)
  have enc: "encode example_tokenizer ''ab b'' = Inr [7, 4, 6, 4]"
    by code_simp
  have fit: "fit exact_div 3 None None ''a'' ''a''
        = Some (Inr [''<pad>'', ''<cls>'', ''<sep>'', ''<mask>'', ''<unk>'', ''a'', ''_'', ''_a''])"
    by code_simp
  note inst = unknown_fallback [of "idx2token example_tokenizer" "''_ab''" "[''_a'']" 2 2 "[''_a'']"
      example_tokenizer "''ab b''" exact_div 3 None None "''a''" "''a''"
      "[''<pad>'', ''<cls>'', ''<sep>'', ''<mask>'', ''<unk>'', ''a'', ''_'', ''_a'']"
      "[''a'', ''_'']"]
  from inst greedy short rest
  have "tokenize_word (idx2token example_tokenizer) ''_ab'' = [''_a''] @ [''<unk>'']"
    by blast
  moreover from inst dom unk have "\<exists>ids. encode example_tokenizer ''ab b'' = Inr ids"
    by blast
  moreover from inst fit have "\<exists>ids. encode \<lparr>valid_symbols = [''a'', ''_''],
                      idx2token = [''<pad>'', ''<cls>'', ''<sep>'', ''<mask>'', ''<unk>'', ''a'', ''_'', ''_a''],
                      token2idx = token2idx_of [''<pad>'', ''<cls>'', ''<sep>'', ''<mask>'', ''<unk>'',
                                                ''a'', ''_'', ''_a'']\<rparr> ''ab b'' = Inr ids"
    by blast
  ultimately show ?thesis using greedy short last run lt dom unk enc fit by blast
qed

end
